theory Spec2Isabelle
  imports Complex_Main "HOL-Library.Monad_Syntax"
begin

section \<open>Values of the host language\<close>

text \<open>
  The program is one React component, \<open>src/app/page.tsx\<close>.  A JavaScript number is
  an IEEE 754 double.  A number held in the state of the component (an entry of
  \<open>weeklyHours\<close>, \<open>hourlyRate\<close>) is given as a real number and stands for the
  double nearest to it: what is computed from it for display starts by rounding it to that
  double (\<open>to_double\<close>) and rounds the result of every operation as the language
  prescribes.  The seconds counter is an integer (it starts at 0 and is only ever
  incremented by 1), and a \<open>Date\<close> is its time value, the milliseconds since the
  epoch.
\<close>

datatype error = SyntaxError | RangeError | TypeError

text \<open>
  An element of a JavaScript array that is declared \<open>number[]\<close>.  Writing beyond
  the end of an array leaves empty slots (\<open>Hole\<close>); spreading an array turns them
  into \<open>undefined\<close>; \<open>JSON.stringify\<close> writes both as \<open>null\<close>.
\<close>

datatype cell = Num real | Hole | Undefined | Null

definition spread :: "cell list \<Rightarrow> cell list" where
  \<comment> \<open>\<open>[...prev]\<close>: the iterator yields \<open>undefined\<close> for an empty slot\<close>
  "spread xs = map (\<lambda>c. if c = Hole then Undefined else c) xs"

definition array_store :: "cell list \<Rightarrow> nat \<Rightarrow> real \<Rightarrow> cell list" where
  \<comment> \<open>\<open>a[i] = v\<close>: in range it overwrites, beyond the end it extends the array\<close>
  "array_store xs i v =
     (if i < length xs then xs[i := Num v]
      else xs @ replicate (i - length xs) Hole @ [Num v])"

definition is_Num :: "cell \<Rightarrow> bool" where
  "is_Num c = (case c of Num x \<Rightarrow> True | _ \<Rightarrow> False)"

subsection \<open>Double-precision arithmetic\<close>

text \<open>
  The value of an arithmetic expression: a finite double, given by the real number it is,
  an infinity or NaN.  The two zeros are not told apart (nothing that the program displays
  depends on the sign of a zero).
\<close>

datatype number = Finite real | PosInfinity | NegInfinity | NaN

definition pow2 :: "int \<Rightarrow> real" where
  "pow2 e = (if 0 \<le> e then 2 ^ nat e else 1 / 2 ^ nat (- e))"

function bit_length :: "int \<Rightarrow> nat" where
  "bit_length n = (if n \<le> 0 then 0 else Suc (bit_length (n div 2)))"
  by pat_completeness auto
termination
  by (relation "measure nat") auto

declare bit_length.simps [simp del]

definition binade :: "real \<Rightarrow> int" where
  \<comment> \<open>for \<open>x > 0\<close>, the exponent \<open>e\<close> with \<open>2\<^sup>e \<le> x < 2\<^sup>e\<^sup>+\<^sup>1\<close>\<close>
  "binade x =
     (if 1 \<le> x then int (bit_length \<lfloor>x\<rfloor>) - 1
      else - int (bit_length (\<lceil>1 / x\<rceil> - 1)))"

definition round_even :: "real \<Rightarrow> int" where
  \<comment> \<open>the nearest integer, the even one of two equally near\<close>
  "round_even y =
     (let f = \<lfloor>y\<rfloor>; d = y - of_int f
      in if d < 1 / 2 then f else if 1 / 2 < d then f + 1 else if even f then f else f + 1)"

definition to_double :: "real \<Rightarrow> number" where
  \<comment> \<open>a real number rounded to the nearest double, ties to even: a significand of 53
      bits, the least exponent \<open>-1074\<close> (subnormal numbers), an infinity from
      \<open>2\<^sup>1\<^sup>0\<^sup>2\<^sup>4\<close>\<close>
  "to_double x =
     (if x = 0 then Finite 0
      else (let q = pow2 (max (binade \<bar>x\<bar> - 52) (- 1074));
                y = q * of_int (round_even (x / q))
            in if 2 ^ 1024 \<le> y then PosInfinity
               else if y \<le> - (2 ^ 1024) then NegInfinity
               else Finite y))"

fun dneg :: "number \<Rightarrow> number" where
  "dneg (Finite x) = Finite (- x)"
| "dneg PosInfinity = NegInfinity"
| "dneg NegInfinity = PosInfinity"
| "dneg NaN = NaN"


fun dmul :: "number \<Rightarrow> number \<Rightarrow> number" where
  \<comment> \<open>\<open>a * b\<close>\<close>
  "dmul NaN b = NaN"
| "dmul a NaN = NaN"
| "dmul (Finite x) (Finite y) = to_double (x * y)"
| "dmul (Finite x) b = (if x = 0 then NaN else if 0 < x then b else dneg b)"
| "dmul a (Finite y) = (if y = 0 then NaN else if 0 < y then a else dneg a)"
| "dmul a b = (if a = b then PosInfinity else NegInfinity)"

definition ddiv :: "number \<Rightarrow> real \<Rightarrow> number" where
  \<comment> \<open>\<open>a / c\<close> for a constant \<open>c > 0\<close>\<close>
  "ddiv a c = (case a of Finite x \<Rightarrow> to_double (x / c) | _ \<Rightarrow> a)"

definition drem :: "number \<Rightarrow> real \<Rightarrow> number" where
  \<comment> \<open>\<open>a % c\<close> for a constant \<open>c > 0\<close>: the quotient is truncated towards zero and the
      remainder is exact\<close>
  "drem a c =
     (case a of
        Finite x \<Rightarrow> Finite (if 0 \<le> x then x - c * real_of_int \<lfloor>x / c\<rfloor>
                             else x - c * real_of_int \<lceil>x / c\<rceil>)
      | _ \<Rightarrow> NaN)"

definition Math_floor :: "number \<Rightarrow> number" where
  "Math_floor a = (case a of Finite x \<Rightarrow> Finite (real_of_int \<lfloor>x\<rfloor>) | _ \<Rightarrow> a)"

subsection \<open>Strings of digits\<close>

definition digit_char :: "nat \<Rightarrow> char" where
  "digit_char d = ''0123456789'' ! d"

fun toString_nat :: "nat \<Rightarrow> string" where
  "toString_nat n =
     (if n < 10 then [digit_char n] else toString_nat (n div 10) @ [digit_char (n mod 10)])"

declare toString_nat.simps [simp del]

function decimal :: "int \<Rightarrow> string" where
  \<comment> \<open>the decimal digits of an integer \<open>i \<ge> 0\<close>\<close>
  "decimal i =
     (if i < 10 then [digit_char (nat i)] else decimal (i div 10) @ [digit_char (nat (i mod 10))])"
  by pat_completeness auto
termination
  by (relation "measure nat") auto

declare decimal.simps [simp del]

definition padStart :: "nat \<Rightarrow> char \<Rightarrow> string \<Rightarrow> string" where
  "padStart n c s = replicate (n - length s) c @ s"

definition pad :: "nat \<Rightarrow> nat \<Rightarrow> string" where
  \<comment> \<open>a natural number in at least \<open>n\<close> decimal digits\<close>
  "pad n v = padStart n CHR ''0'' (toString_nat v)"

subsection \<open>A number as a string\<close>

text \<open>
  \<open>Number::toString\<close> of ECMAScript.  A double \<open>x > 0\<close> is written with the
  digits of the integer \<open>s\<close> of the least number \<open>k\<close> of digits for which
  \<open>s \<times> 10\<^sup>n\<^sup>-\<^sup>k\<close> is read as \<open>x\<close>; of several such \<open>s\<close> the one nearest to
  \<open>x\<close>.  The notation is positional for \<open>-6 < n \<le> 21\<close> and exponential
  otherwise.  No double needs more than 17 digits.
\<close>

definition pow10 :: "int \<Rightarrow> real" where
  "pow10 e = (if 0 \<le> e then 10 ^ nat e else 1 / 10 ^ nat (- e))"

definition decade :: "real \<Rightarrow> int" where
  \<comment> \<open>for \<open>x > 0\<close>, the \<open>n\<close> with \<open>10\<^sup>n\<^sup>-\<^sup>1 \<le> x < 10\<^sup>n\<close>\<close>
  "decade x =
     (if 1 \<le> x then int (length (decimal \<lfloor>x\<rfloor>))
      else 1 - int (length (decimal (\<lceil>1 / x\<rceil> - 1))))"

definition digit_candidates :: "real \<Rightarrow> int \<Rightarrow> (int \<times> int \<times> int) list" where
  \<comment> \<open>the triples \<open>(n, k, s)\<close> of \<open>k\<close> digits \<open>s\<close> next to \<open>x\<close> for which
      \<open>s \<times> 10\<^sup>n\<^sup>-\<^sup>k\<close> is read as the double \<open>x\<close>, the nearer to \<open>x\<close> first, of two
      equally near the even one first\<close>
  "digit_candidates x k =
     (let n = decade x;
          t = x / pow10 (n - k);
          lo = \<lfloor>t\<rfloor>;
          below = (if to_double (real_of_int lo * pow10 (n - k)) = Finite x then [(n, k, lo)] else []);
          above = (if lo + 1 < 10 ^ nat k
                   then (if to_double (real_of_int (lo + 1) * pow10 (n - k)) = Finite x
                         then [(n, k, lo + 1)] else [])
                   else (if k = 1 \<and> to_double (pow10 n) = Finite x then [(n + 1, 1, 1)] else []))
      in if t - real_of_int lo < real_of_int (lo + 1) - t then below @ above
         else if real_of_int (lo + 1) - t < t - real_of_int lo then above @ below
         else if even lo then below @ above else above @ below)"

definition shortest_digits :: "real \<Rightarrow> int \<times> int \<times> int" where
  "shortest_digits x =
     (case concat (map (digit_candidates x) [1..17]) of
        c # cs \<Rightarrow> c
      | [] \<Rightarrow> (decade x, 17, round_even (x / pow10 (decade x - 17))))"

definition positive_toString :: "real \<Rightarrow> string" where
  \<comment> \<open>\<open>toString()\<close> of a double \<open>x > 0\<close>\<close>
  "positive_toString x =
     (case shortest_digits x of
        (n, k, s) \<Rightarrow>
          (let ds = decimal s
           in if k \<le> n \<and> n \<le> 21 then ds @ replicate (nat (n - k)) CHR ''0''
              else if 0 < n \<and> n \<le> 21 then take (nat n) ds @ ''.'' @ drop (nat n) ds
              else if - 6 < n \<and> n \<le> 0 then ''0.'' @ replicate (nat (- n)) CHR ''0'' @ ds
              else (let ex = (if n - 1 < 0 then ''-'' else ''+'') @ decimal \<bar>n - 1\<bar>
                    in if k = 1 then ds @ ''e'' @ ex
                       else take 1 ds @ ''.'' @ drop 1 ds @ ''e'' @ ex)))"

definition Number_toString :: "number \<Rightarrow> string" where
  "Number_toString a =
     (case a of
        NaN \<Rightarrow> ''NaN''
      | PosInfinity \<Rightarrow> ''Infinity''
      | NegInfinity \<Rightarrow> ''-Infinity''
      | Finite x \<Rightarrow>
          if x = 0 then ''0''
          else if x < 0 then ''-'' @ positive_toString (- x)
          else positive_toString x)"

subsection \<open>Time values\<close>

text \<open>
  The environment of the page: the offset of local time from UTC at each instant
  (it changes with daylight saving), and what \<open>Date.parse\<close> makes of a string that
  is not in the form that \<open>toISOString\<close> writes (the language leaves part of this
  to the implementation).
\<close>

record host =
  LocalTZA :: "int \<Rightarrow> int"
  legacy_parse :: "string \<Rightarrow> int option"

definition msPerDay :: int where
  "msPerDay = 86400000"

definition msPerHour :: int where
  "msPerHour = 3600000"

definition msPerMinute :: int where
  "msPerMinute = 60000"

definition msPerSecond :: int where
  "msPerSecond = 1000"

definition Day :: "int \<Rightarrow> int" where
  "Day t = t div msPerDay"

definition WeekDay :: "int \<Rightarrow> int" where
  "WeekDay t = (Day t + 4) mod 7"

definition HourFromTime :: "int \<Rightarrow> int" where
  "HourFromTime t = (t div msPerHour) mod 24"

definition MinFromTime :: "int \<Rightarrow> int" where
  "MinFromTime t = (t div msPerMinute) mod 60"

definition SecFromTime :: "int \<Rightarrow> int" where
  "SecFromTime t = (t div msPerSecond) mod 60"

definition msFromTime :: "int \<Rightarrow> int" where
  "msFromTime t = t mod msPerSecond"

definition LocalTime :: "host \<Rightarrow> int \<Rightarrow> int" where
  "LocalTime h t = t + LocalTZA h t"

definition getDay :: "host \<Rightarrow> int \<Rightarrow> int" where
  "getDay h t = WeekDay (LocalTime h t)"

definition getHours :: "host \<Rightarrow> int \<Rightarrow> int" where
  "getHours h t = HourFromTime (LocalTime h t)"

definition valid_time :: "int \<Rightarrow> bool" where
  \<comment> \<open>the time values that a \<open>Date\<close> can hold\<close>
  "valid_time t = (\<bar>t\<bar> \<le> 8640000000000000)"

definition TimeClip :: "int \<Rightarrow> int option" where
  \<comment> \<open>\<open>None\<close> is the time value NaN of an invalid \<open>Date\<close>\<close>
  "TimeClip t = (if valid_time t then Some t else None)"

definition differenceInSeconds :: "int \<Rightarrow> int \<Rightarrow> int" where
  \<comment> \<open>date-fns: the difference in milliseconds over 1000, truncated towards zero\<close>
  "differenceInSeconds dateLeft dateRight =
     (let diff = dateLeft - dateRight
      in if 0 \<le> diff then diff div 1000 else - ((- diff) div 1000))"

subsection \<open>The calendar\<close>

text \<open>
  The year of a day number is the one whose first day is the last not after it.  It is
  found by walking from an estimate, down and then up; that the walk ends rests on every
  year having 365 or 366 days.
\<close>

definition DayFromYear :: "int \<Rightarrow> int" where
  "DayFromYear y = 365 * (y - 1970) + (y - 1969) div 4 - (y - 1901) div 100 + (y - 1601) div 400"

definition DaysInYear :: "int \<Rightarrow> int" where
  "DaysInYear y =
     (if y mod 4 \<noteq> 0 then 365 else if y mod 100 \<noteq> 0 then 366
      else if y mod 400 \<noteq> 0 then 365 else 366)"

lemma div_step:
  fixes a n :: int
  assumes "0 < n"
  shows "(a + 1) div n = a div n + (if (a + 1) mod n = 0 then 1 else 0)"
proof -
  define q where "q = a div n"
  define r where "r = a mod n"
  have a: "a = n * q + r" by (simp add: q_def r_def)
  have r: "0 \<le> r" "r < n" using assms by (simp_all add: r_def)
  show ?thesis
  proof (cases "r + 1 < n")
    case True
    have e: "a + 1 = n * q + (r + 1)" using a by simp
    from r True have "(a + 1) div n = q" by (intro int_div_pos_eq [OF e]) simp_all
    moreover from r True have "(a + 1) mod n = r + 1" by (intro int_mod_pos_eq [OF e]) simp_all
    ultimately show ?thesis using r by (simp add: q_def)
  next
    case False
    with r have rn: "r + 1 = n" by simp
    have e: "a + 1 = n * (q + 1) + 0" using a rn by (simp add: algebra_simps)
    from assms have "(a + 1) div n = q + 1" by (intro int_div_pos_eq [OF e]) simp_all
    moreover from assms have "(a + 1) mod n = 0" by (intro int_mod_pos_eq [OF e]) simp_all
    ultimately show ?thesis by (simp add: q_def)
  qed
qed

lemma mod_shift4: "(y - 1968) mod 4 = y mod 4" for y :: int
proof -
  have "(y + 4 * (- 492)) mod 4 = y mod 4" by (rule mod_mult_self2)
  then show ?thesis by simp
qed

lemma mod_shift100: "(y - 1900) mod 100 = y mod 100" for y :: int
proof -
  have "(y + 100 * (- 19)) mod 100 = y mod 100" by (rule mod_mult_self2)
  then show ?thesis by simp
qed

lemma mod_shift400: "(y - 1600) mod 400 = y mod 400" for y :: int
proof -
  have "(y + 400 * (- 4)) mod 400 = y mod 400" by (rule mod_mult_self2)
  then show ?thesis by simp
qed

lemma DayFromYear_step: "DayFromYear (y + 1) = DayFromYear y + DaysInYear y"
proof -
  have e4: "y + 1 - 1969 = (y - 1969) + 1" "y - 1969 + 1 = y - 1968" by simp_all
  have e100: "y + 1 - 1901 = (y - 1901) + 1" "y - 1901 + 1 = y - 1900" by simp_all
  have e400: "y + 1 - 1601 = (y - 1601) + 1" "y - 1601 + 1 = y - 1600" by simp_all
  have a: "(y + 1 - 1969) div 4 = (y - 1969) div 4 + (if y mod 4 = 0 then 1 else 0)"
  proof -
    have "(y - 1969 + 1) div 4 = (y - 1969) div 4 + (if (y - 1969 + 1) mod 4 = 0 then 1 else 0)"
      by (rule div_step) simp
    then show ?thesis by (simp only: e4 mod_shift4)
  qed
  have b: "(y + 1 - 1901) div 100 = (y - 1901) div 100 + (if y mod 100 = 0 then 1 else 0)"
  proof -
    have "(y - 1901 + 1) div 100 = (y - 1901) div 100 + (if (y - 1901 + 1) mod 100 = 0 then 1 else 0)"
      by (rule div_step) simp
    then show ?thesis by (simp only: e100 mod_shift100)
  qed
  have c: "(y + 1 - 1601) div 400 = (y - 1601) div 400 + (if y mod 400 = 0 then 1 else 0)"
  proof -
    have "(y - 1601 + 1) div 400 = (y - 1601) div 400 + (if (y - 1601 + 1) mod 400 = 0 then 1 else 0)"
      by (rule div_step) simp
    then show ?thesis by (simp only: e400 mod_shift400)
  qed
  have d: "y mod 4 = 0" if "y mod 100 = 0"
  proof -
    from that have "100 dvd y" by (simp add: dvd_eq_mod_eq_0)
    moreover have "(4::int) dvd 100" by simp
    ultimately have "4 dvd y" by (rule dvd_trans [rotated])
    then show ?thesis by (simp add: dvd_eq_mod_eq_0)
  qed
  have d': "y mod 100 = 0" if "y mod 400 = 0"
  proof -
    from that have "400 dvd y" by (simp add: dvd_eq_mod_eq_0)
    moreover have "(100::int) dvd 400" by simp
    ultimately have "100 dvd y" by (rule dvd_trans [rotated])
    then show ?thesis by (simp add: dvd_eq_mod_eq_0)
  qed
  have l: "DayFromYear (y + 1) = DayFromYear y + 365 + (if y mod 4 = 0 then 1 else 0)
      - (if y mod 100 = 0 then 1 else 0) + (if y mod 400 = 0 then 1 else 0)"
    unfolding DayFromYear_def a b c by (simp only: algebra_simps)
  show ?thesis
  proof (cases "y mod 4 = 0")
    case False
    with d d' show ?thesis unfolding l DaysInYear_def by auto
  next
    case True
    show ?thesis
    proof (cases "y mod 100 = 0")
      case False
      with True d' show ?thesis unfolding l DaysInYear_def by auto
    next
      case h: True
      with True show ?thesis unfolding l DaysInYear_def by auto
    qed
  qed
qed

lemma DaysInYear_bounds: "365 \<le> DaysInYear y \<and> DaysInYear y \<le> 366"
  by (simp add: DaysInYear_def)

lemma DayFromYear_less: "DayFromYear y < DayFromYear (y + 1)"
  using DaysInYear_bounds [of y] by (simp add: DayFromYear_step)

lemma DayFromYear_pred: "DayFromYear (y - 1) < DayFromYear y"
  using DayFromYear_less [of "y - 1"] by simp

function year_down :: "int \<Rightarrow> int \<Rightarrow> int" where
  "year_down d y = (if d < DayFromYear y then year_down d (y - 1) else y)"
  by pat_completeness auto
termination
proof (relation "measure (\<lambda>(d, y). nat (DayFromYear y - d))")
  show "wf (measure (\<lambda>(d, y). nat (DayFromYear y - d)))" by simp
next
  fix d y :: int assume "d < DayFromYear y"
  then show "((d, y - 1), (d, y)) \<in> measure (\<lambda>(d, y). nat (DayFromYear y - d))"
    using DayFromYear_pred [of y] by simp
qed

function year_up :: "int \<Rightarrow> int \<Rightarrow> int" where
  "year_up d y = (if DayFromYear (y + 1) \<le> d then year_up d (y + 1) else y)"
  by pat_completeness auto
termination
proof (relation "measure (\<lambda>(d, y). nat (d + 1 - DayFromYear (y + 1)))")
  show "wf (measure (\<lambda>(d, y). nat (d + 1 - DayFromYear (y + 1))))" by simp
next
  fix d y :: int assume "DayFromYear (y + 1) \<le> d"
  then show "((d, y + 1), (d, y)) \<in> measure (\<lambda>(d, y). nat (d + 1 - DayFromYear (y + 1)))"
    using DayFromYear_less [of "y + 1"] by simp
qed

declare year_down.simps [simp del] year_up.simps [simp del]

definition YearFromDay :: "int \<Rightarrow> int" where
  "YearFromDay d = year_up d (year_down d (1970 + (400 * d) div 146097))"

definition YearFromTime :: "int \<Rightarrow> int" where
  "YearFromTime t = YearFromDay (Day t)"

definition InLeapYear :: "int \<Rightarrow> int" where
  "InLeapYear t = (if DaysInYear (YearFromTime t) = 366 then 1 else 0)"

definition DayWithinYear :: "int \<Rightarrow> int" where
  "DayWithinYear t = Day t - DayFromYear (YearFromTime t)"

definition month_start :: "int \<Rightarrow> int \<Rightarrow> int" where
  \<comment> \<open>the day within the year on which month \<open>m\<close> (0 for January) begins; 12 is the next year\<close>
  "month_start l m =
     (if m = 0 then 0 else if m = 1 then 31 else if m = 2 then 59 + l
      else if m = 3 then 90 + l else if m = 4 then 120 + l else if m = 5 then 151 + l
      else if m = 6 then 181 + l else if m = 7 then 212 + l else if m = 8 then 243 + l
      else if m = 9 then 273 + l else if m = 10 then 304 + l else if m = 11 then 334 + l
      else 365 + l)"

definition MonthFromTime :: "int \<Rightarrow> int" where
  "MonthFromTime t =
     (let d = DayWithinYear t; l = InLeapYear t
      in if d < 31 then 0 else if d < 59 + l then 1 else if d < 90 + l then 2
         else if d < 120 + l then 3 else if d < 151 + l then 4 else if d < 181 + l then 5
         else if d < 212 + l then 6 else if d < 243 + l then 7 else if d < 273 + l then 8
         else if d < 304 + l then 9 else if d < 334 + l then 10 else 11)"

definition DateFromTime :: "int \<Rightarrow> int" where
  "DateFromTime t = DayWithinYear t - month_start (InLeapYear t) (MonthFromTime t) + 1"

definition MakeTime :: "int \<Rightarrow> int \<Rightarrow> int \<Rightarrow> int \<Rightarrow> int" where
  "MakeTime hour minute sec ms = hour * msPerHour + minute * msPerMinute + sec * msPerSecond + ms"

definition MakeDay :: "int \<Rightarrow> int \<Rightarrow> int \<Rightarrow> int" where
  "MakeDay year month date =
     (let ym = year + month div 12; mn = month mod 12
      in DayFromYear ym + month_start (if DaysInYear ym = 366 then 1 else 0) mn + date - 1)"

definition MakeDate :: "int \<Rightarrow> int \<Rightarrow> int" where
  "MakeDate day time = day * msPerDay + time"

definition DaysInMonth :: "int \<Rightarrow> int \<Rightarrow> int" where
  \<comment> \<open>the length of month \<open>mo\<close> (1 for January) of a year\<close>
  "DaysInMonth year mo =
     (let l = (if DaysInYear year = 366 then 1 else 0)
      in month_start l mo - month_start l (mo - 1))"

subsection \<open>The string form of a time value\<close>

text \<open>
  \<open>toISOString\<close> writes \<open>YYYY-MM-DDTHH:mm:ss.sssZ\<close>, the year in six
  digits with a sign when it is not within 0 to 9999.  \<open>parse_iso\<close> reads that form
  and no other, and only with fields in range; every other string is left to
  \<open>legacy_parse\<close>.
\<close>

definition digit_val :: "char \<Rightarrow> nat option" where
  "digit_val c = map_of (zip ''0123456789'' [0, 1, 2, 3, 4, 5, 6, 7, 8, 9]) c"

fun read_digits :: "nat \<Rightarrow> string \<Rightarrow> nat option" where
  "read_digits acc [] = Some acc"
| "read_digits acc (c # cs) =
     (case digit_val c of None \<Rightarrow> None | Some d \<Rightarrow> read_digits (10 * acc + d) cs)"

definition expect :: "char \<Rightarrow> string \<Rightarrow> string option" where
  "expect c s = (case s of [] \<Rightarrow> None | x # xs \<Rightarrow> if x = c then Some xs else None)"

definition digits_n :: "nat \<Rightarrow> string \<Rightarrow> (nat \<times> string) option" where
  "digits_n n s =
     (if length s < n then None
      else case read_digits 0 (take n s) of None \<Rightarrow> None | Some v \<Rightarrow> Some (v, drop n s))"

definition parse_year :: "string \<Rightarrow> (int \<times> string) option" where
  "parse_year s =
     (case s of
        [] \<Rightarrow> None
      | c # cs \<Rightarrow>
          if c = CHR ''+'' then
            (case digits_n 6 cs of None \<Rightarrow> None | Some (v, r) \<Rightarrow> Some (int v, r))
          else if c = CHR ''-'' then
            (case digits_n 6 cs of None \<Rightarrow> None
             | Some (v, r) \<Rightarrow> if v = 0 then None else Some (- int v, r))
          else (case digits_n 4 s of None \<Rightarrow> None | Some (v, r) \<Rightarrow> Some (int v, r)))"

definition parse_iso :: "string \<Rightarrow> int option" where
  "parse_iso s = do {
     (year, s1) \<leftarrow> parse_year s;
     s2 \<leftarrow> expect CHR ''-'' s1;
     (mo, s3) \<leftarrow> digits_n 2 s2;
     s4 \<leftarrow> expect CHR ''-'' s3;
     (dd, s5) \<leftarrow> digits_n 2 s4;
     s6 \<leftarrow> expect CHR ''T'' s5;
     (hh, s7) \<leftarrow> digits_n 2 s6;
     s8 \<leftarrow> expect CHR '':'' s7;
     (mi, s9) \<leftarrow> digits_n 2 s8;
     s10 \<leftarrow> expect CHR '':'' s9;
     (ss, s11) \<leftarrow> digits_n 2 s10;
     s12 \<leftarrow> expect CHR ''.'' s11;
     (ms, s13) \<leftarrow> digits_n 3 s12;
     s14 \<leftarrow> expect CHR ''Z'' s13;
     if s14 = [] \<and> 1 \<le> mo \<and> mo \<le> 12 \<and> 1 \<le> dd \<and> int dd \<le> DaysInMonth year (int mo)
        \<and> hh < 24 \<and> mi < 60 \<and> ss < 60
     then Some (MakeDate (MakeDay year (int mo - 1) (int dd))
                  (MakeTime (int hh) (int mi) (int ss) (int ms)))
     else None
   }"

definition iso_fields :: "int \<Rightarrow> nat \<Rightarrow> nat \<Rightarrow> nat \<Rightarrow> nat \<Rightarrow> nat \<Rightarrow> nat \<Rightarrow> string" where
  "iso_fields year mo dd hh mi ss ms =
     (if 0 \<le> year \<and> year \<le> 9999 then pad 4 (nat year)
      else (if year < 0 then ''-'' else ''+'') @ pad 6 (nat \<bar>year\<bar>))
     @ ''-'' @ pad 2 mo @ ''-'' @ pad 2 dd @ ''T'' @ pad 2 hh @ '':'' @ pad 2 mi @ '':''
     @ pad 2 ss @ ''.'' @ pad 3 ms @ ''Z''"

definition toISOString :: "int \<Rightarrow> string" where
  "toISOString t =
     iso_fields (YearFromTime t) (nat (MonthFromTime t + 1)) (nat (DateFromTime t))
       (nat (HourFromTime t)) (nat (MinFromTime t)) (nat (SecFromTime t)) (nat (msFromTime t))"

definition Date_parse :: "host \<Rightarrow> string \<Rightarrow> int option" where
  "Date_parse h s =
     (case parse_iso s of
        Some t \<Rightarrow> TimeClip t
      | None \<Rightarrow> (case legacy_parse h s of None \<Rightarrow> None | Some t \<Rightarrow> TimeClip t))"

section \<open>The component\<close>

record StoredData =
  clockInTime :: "string option"
  clockOutTime :: "string option"
  totalWorkedToday :: int
  weeklyHours :: "cell list"
  hourlyRate :: real

text \<open>The state variables of \<open>Component\<close>, one field for each \<open>useState\<close>.\<close>

record component =
  currentTime :: int
  clockInTime :: "int option"
  clockOutTime :: "int option"
  totalWorkedToday :: int
  weeklyHours :: "cell list"
  hourlyRate :: real

definition initial :: "int \<Rightarrow> component" where
  \<comment> \<open>the arguments of \<open>useState\<close>; \<open>now\<close> is the \<open>new Date()\<close> of the first render\<close>
  "initial now =
     \<lparr>currentTime = now, clockInTime = None, clockOutTime = None, totalWorkedToday = 0,
      weeklyHours = [Num 0, Num 0, Num 0, Num 0, Num 0], hourlyRate = 15\<rparr>"

definition handleClockIn :: "int \<Rightarrow> component \<Rightarrow> component" where
  "handleClockIn now s = s\<lparr>clockInTime := Some now, clockOutTime := None, totalWorkedToday := 0\<rparr>"

definition handleClockOut :: "host \<Rightarrow> int \<Rightarrow> component \<Rightarrow> component" where
  "handleClockOut h now s =
     (let s1 = s\<lparr>clockOutTime := Some now\<rparr>
      in case clockInTime s of
           None \<Rightarrow> s1
         | Some cin \<Rightarrow>
             (let todayIndex = getDay h now - 1
              in if 0 \<le> todayIndex \<and> todayIndex < 5
                 then (let workedToday = real_of_int (differenceInSeconds now cin) / 3600
                       in s1\<lparr>weeklyHours :=
                              array_store (spread (weeklyHours s)) (nat todayIndex) workedToday\<rparr>)
                 else s1))"

definition formatTime :: "int \<Rightarrow> string" where
  "formatTime seconds =
     (let d = to_double (real_of_int seconds);
          hours = Math_floor (ddiv d 3600);
          minutes = Math_floor (ddiv (drem d 3600) 60);
          remainingSeconds = drem d 60
      in padStart 2 CHR ''0'' (Number_toString hours) @ '':'' @
         padStart 2 CHR ''0'' (Number_toString minutes) @ '':'' @
         padStart 2 CHR ''0'' (Number_toString remainingSeconds))"

definition Number_toFixed2 :: "number \<Rightarrow> string" where
  \<comment> \<open>\<open>a.toFixed(2)\<close>: of the double as it is, the nearest multiple of 0.01, the larger
      of two equally near; from \<open>10\<^sup>2\<^sup>1\<close> and for what is not finite, \<open>toString()\<close>\<close>
  "Number_toFixed2 a =
     (case a of
        Finite x \<Rightarrow>
          if 10 ^ 21 \<le> \<bar>x\<bar> then Number_toString a
          else (let m = padStart 3 CHR ''0'' (decimal \<lfloor>\<bar>x\<bar> * 100 + 1 / 2\<rfloor>);
                    k = length m
                in (if x < 0 then ''-'' else []) @ take (k - 2) m @ ''.'' @ drop (k - 2) m)
      | _ \<Rightarrow> Number_toString a)"

definition calculateDailyEarnings :: "component \<Rightarrow> string" where
  "calculateDailyEarnings s =
     Number_toFixed2
       (dmul (ddiv (to_double (real_of_int (totalWorkedToday s))) 3600) (to_double (hourlyRate s)))"



definition isWorkingHours :: "host \<Rightarrow> component \<Rightarrow> bool" where
  "isWorkingHours h s = (9 \<le> getHours h (currentTime s) \<and> getHours h (currentTime s) < 17)"

definition isWeekday :: "host \<Rightarrow> component \<Rightarrow> bool" where
  "isWeekday h s = (0 < getDay h (currentTime s) \<and> getDay h (currentTime s) < 6)"

definition clockInDisabled :: "host \<Rightarrow> component \<Rightarrow> bool" where
  "clockInDisabled h s = (clockInTime s \<noteq> None \<or> \<not> isWorkingHours h s \<or> \<not> isWeekday h s)"

definition clockOutDisabled :: "component \<Rightarrow> bool" where
  "clockOutDisabled s = (clockInTime s = None \<or> clockOutTime s \<noteq> None)"

definition atWork :: "component \<Rightarrow> bool" where
  \<comment> \<open>the status line: \<open>clockInTime && !clockOutTime\<close>\<close>
  "atWork s = (clockInTime s \<noteq> None \<and> clockOutTime s = None)"

definition renders :: "component \<Rightarrow> bool" where
  \<comment> \<open>the weekly summary calls \<open>weeklyHours[index].toFixed(2)\<close> for the indices 0 to 4,
      which throws a TypeError on anything but a number\<close>
  "renders s = (5 \<le> length (weeklyHours s) \<and> list_all is_Num (take 5 (weeklyHours s)))"

section \<open>Persistence\<close>

text \<open>
  What is stored under the key \<open>timeTrackerData\<close> is a string.  The program only
  tests it for being empty, hands it to \<open>JSON.parse\<close> and replaces it by the
  \<open>JSON.stringify\<close> of a record, so the string is kept as what those operations see
  of it: the empty string, a string that \<open>JSON.parse\<close> rejects, or the text of a
  record of the declared type \<open>StoredData\<close>.  A number is written
  in digits that read back as the same number, so
  \<open>JSON.parse\<close> gives back the record that \<open>JSON.stringify\<close> wrote, except that
  array elements that are not numbers come back as \<open>null\<close>.
\<close>

datatype stored_text = Empty_string | Not_JSON | JSON_text StoredData

definition JSON_parse :: "stored_text \<Rightarrow> error + StoredData" where
  "JSON_parse item =
     (case item of Empty_string \<Rightarrow> Inl SyntaxError | Not_JSON \<Rightarrow> Inl SyntaxError
      | JSON_text data \<Rightarrow> Inr data)"

definition JSON_stringify :: "StoredData \<Rightarrow> stored_text" where
  "JSON_stringify data =
     JSON_text (data\<lparr>StoredData.weeklyHours :=
                   map (\<lambda>c. if is_Num c then c else Null) (StoredData.weeklyHours data)\<rparr>)"

definition getInitialData :: StoredData where
  "getInitialData =
     \<lparr>StoredData.clockInTime = None, StoredData.clockOutTime = None,
      StoredData.totalWorkedToday = 0,
      StoredData.weeklyHours = [Num 0, Num 0, Num 0, Num 0, Num 0],
      StoredData.hourlyRate = 15\<rparr>"

definition revive :: "host \<Rightarrow> string option \<Rightarrow> error + string option" where
  \<comment> \<open>\<open>v ? new Date(v).toISOString() : null\<close>; \<open>toISOString\<close> throws a RangeError
      on an invalid date\<close>
  "revive h v =
     (case v of
        None \<Rightarrow> Inr None
      | Some str \<Rightarrow>
          if str = [] then Inr None
          else (case Date_parse h str of
                  None \<Rightarrow> Inl RangeError
                | Some t \<Rightarrow> Inr (Some (toISOString t))))"

definition loadStoredData :: "host \<Rightarrow> bool \<Rightarrow> stored_text option \<Rightarrow> error + StoredData" where
  \<comment> \<open>\<open>window\<close>: whether \<open>window\<close> is defined; \<open>stored\<close>: the result of \<open>getItem\<close>\<close>
  "loadStoredData h window stored =
     (if \<not> window then Inr getInitialData
      else case stored of
             None \<Rightarrow> Inr getInitialData
           | Some item \<Rightarrow>
               if item = Empty_string then Inr getInitialData
               else (case JSON_parse item of
                       Inl e \<Rightarrow> Inl e
                     | Inr data \<Rightarrow>
                         (case revive h (StoredData.clockInTime data) of
                            Inl e \<Rightarrow> Inl e
                          | Inr cin \<Rightarrow>
                              (case revive h (StoredData.clockOutTime data) of
                                 Inl e \<Rightarrow> Inl e
                               | Inr cout \<Rightarrow>
                                   Inr (data\<lparr>StoredData.clockInTime := cin,
                                             StoredData.clockOutTime := cout\<rparr>)))))"

definition saveToStorage :: "StoredData \<Rightarrow> stored_text option" where
  \<comment> \<open>the value under the key after \<open>setItem\<close>\<close>
  "saveToStorage data = Some (JSON_stringify data)"

definition dataToStore :: "component \<Rightarrow> StoredData" where
  "dataToStore s =
     \<lparr>StoredData.clockInTime = map_option toISOString (clockInTime s),
      StoredData.clockOutTime = map_option toISOString (clockOutTime s),
      StoredData.totalWorkedToday = totalWorkedToday s,
      StoredData.weeklyHours = weeklyHours s,
      StoredData.hourlyRate = hourlyRate s\<rparr>"

definition stored_date :: "host \<Rightarrow> string option \<Rightarrow> int option \<Rightarrow> error + int option" where
  \<comment> \<open>\<open>if (v) set(new Date(v))\<close>.  An invalid date in the state makes the save effect
      that follows throw a RangeError from \<open>toISOString\<close>.\<close>
  "stored_date h v old =
     (case v of
        None \<Rightarrow> Inr old
      | Some str \<Rightarrow>
          if str = [] then Inr old
          else (case Date_parse h str of None \<Rightarrow> Inl RangeError | Some t \<Rightarrow> Inr (Some t)))"

definition load_effect :: "host \<Rightarrow> StoredData \<Rightarrow> component \<Rightarrow> error + component" where
  \<comment> \<open>the body of the first effect, after \<open>loadStoredData\<close> has returned \<open>storedData\<close>\<close>
  "load_effect h storedData s =
     (case stored_date h (StoredData.clockInTime storedData) (clockInTime s) of
        Inl e \<Rightarrow> Inl e
      | Inr cin \<Rightarrow>
          (case stored_date h (StoredData.clockOutTime storedData) (clockOutTime s) of
             Inl e \<Rightarrow> Inl e
           | Inr cout \<Rightarrow>
               Inr (s\<lparr>clockInTime := cin, clockOutTime := cout,
                       totalWorkedToday := StoredData.totalWorkedToday storedData,
                       weeklyHours := StoredData.weeklyHours storedData,
                       hourlyRate := StoredData.hourlyRate storedData\<rparr>)))"

section \<open>The page\<close>

text \<open>
  The mounted component with the storage beside it.  Every event is handled to its end
  before the next: the handler runs, the component renders again, and the save effect runs
  when one of its dependencies has changed.  A render that throws takes the component off
  the page.
\<close>

record page =
  shown :: component
  storage :: "stored_text option"

datatype event =
    DisplayTick int
  | WorkedTick
  | ClickClockIn int
  | ClickClockOut int
  | EditRate real
  | Reload int

definition deps :: "component \<Rightarrow> int option \<times> int option \<times> int \<times> cell list \<times> real" where
  \<comment> \<open>the dependency list of the save effect\<close>
  "deps s = (clockInTime s, clockOutTime s, totalWorkedToday s, weeklyHours s, hourlyRate s)"

definition commit :: "page \<Rightarrow> component \<Rightarrow> error + page" where
  "commit p s =
     (if \<not> renders s then Inl TypeError
      else Inr \<lparr>shown = s,
                storage = (if deps s = deps (shown p) then storage p
                           else saveToStorage (dataToStore s))\<rparr>)"

definition mount :: "host \<Rightarrow> int \<Rightarrow> stored_text option \<Rightarrow> error + page" where
  \<comment> \<open>the first render shows \<open>initial now\<close>; the load effect reads the storage, the save
      effect then writes the initial values over it; the render that follows shows what was
      loaded, and the save effect writes that\<close>
  "mount h now stored =
     (case loadStoredData h True stored of
        Inl e \<Rightarrow> Inl e
      | Inr storedData \<Rightarrow>
          (case load_effect h storedData (initial now) of
             Inl e \<Rightarrow> Inl e
           | Inr s \<Rightarrow>
               if renders s then Inr \<lparr>shown = s, storage = saveToStorage (dataToStore s)\<rparr>
               else Inl TypeError))"

definition step :: "host \<Rightarrow> event \<Rightarrow> page \<Rightarrow> error + page" where
  "step h ev p =
     (let s = shown p
      in case ev of
           DisplayTick now \<Rightarrow> commit p (s\<lparr>currentTime := now\<rparr>)
         | WorkedTick \<Rightarrow>
             if atWork s then commit p (s\<lparr>totalWorkedToday := totalWorkedToday s + 1\<rparr>)
             else Inr p
         | ClickClockIn now \<Rightarrow>
             if clockInDisabled h s then Inr p else commit p (handleClockIn now s)
         | ClickClockOut now \<Rightarrow>
             if clockOutDisabled s then Inr p else commit p (handleClockOut h now s)
         | EditRate r \<Rightarrow> commit p (s\<lparr>hourlyRate := r\<rparr>)
         | Reload now \<Rightarrow> mount h now (storage p))"


definition event_ok :: "event \<Rightarrow> bool" where
  \<comment> \<open>the instant of an event is the time value of a \<open>new Date()\<close>\<close>
  "event_ok ev =
     (case ev of
        DisplayTick now \<Rightarrow> valid_time now
      | ClickClockIn now \<Rightarrow> valid_time now
      | ClickClockOut now \<Rightarrow> valid_time now
      | Reload now \<Rightarrow> valid_time now
      | _ \<Rightarrow> True)"

text \<open>
  The pages that can be seen: the page is first opened with nothing stored, and from then
  on events arrive, among them reloads, which keep only the storage.
\<close>

inductive reachable :: "host \<Rightarrow> page \<Rightarrow> bool" for h :: host where
  first: "valid_time now \<Longrightarrow> mount h now None = Inr p \<Longrightarrow> reachable h p"
| later: "reachable h p \<Longrightarrow> event_ok ev \<Longrightarrow> step h ev p = Inr p' \<Longrightarrow> reachable h p'"

code_pred reachable .

definition in_sync :: "component \<Rightarrow> page" where
  \<comment> \<open>a component shown with its own record in the storage\<close>
  "in_sync s = \<lparr>shown = s, storage = saveToStorage (dataToStore s)\<rparr>"

definition valid_dates :: "component \<Rightarrow> bool" where
  \<comment> \<open>the dates in the state are dates: none of them is an invalid \<open>Date\<close>\<close>
  "valid_dates s =
     ((case clockInTime s of None \<Rightarrow> True | Some t \<Rightarrow> valid_time t)
      \<and> (case clockOutTime s of None \<Rightarrow> True | Some t \<Rightarrow> valid_time t))"

definition well_formed :: "component \<Rightarrow> bool" where
  \<comment> \<open>five numbers for the week and no invalid date\<close>
  "well_formed s =
     (valid_dates s \<and> length (weeklyHours s) = 5 \<and> list_all is_Num (weeklyHours s))"

section \<open>Reading what is displayed\<close>

definition read_nat :: "string \<Rightarrow> nat option" where
  "read_nat s = (if s = [] then None else read_digits 0 s)"

fun split_on :: "char \<Rightarrow> string \<Rightarrow> string list" where
  "split_on c [] = [[]]"
| "split_on c (x # xs) =
     (if x = c then [] # split_on c xs
      else (case split_on c xs of [] \<Rightarrow> [[x]] | y # ys \<Rightarrow> (x # y) # ys))"

definition read_clock :: "string \<Rightarrow> (nat \<times> nat \<times> nat) option" where
  \<comment> \<open>three fields of digits between colons, the first of two digits or more, the others
      of two digits and below 60\<close>
  "read_clock s =
     (case split_on CHR '':'' s of
        [a, b, c] \<Rightarrow>
          (if 2 \<le> length a \<and> length b = 2 \<and> length c = 2
           then (case (read_nat a, read_nat b, read_nat c) of
                   (Some hh, Some mm, Some ss) \<Rightarrow>
                     if mm < 60 \<and> ss < 60 then Some (hh, mm, ss) else None
                 | _ \<Rightarrow> None)
           else None)
      | _ \<Rightarrow> None)"




section \<open>Examples\<close>

definition utc :: host where
  \<comment> \<open>a host in the UTC zone whose \<open>Date.parse\<close> knows the form of \<open>toISOString\<close> only\<close>
  "utc = \<lparr>LocalTZA = (\<lambda>t. 0), legacy_parse = (\<lambda>s. None)\<rparr>"

definition monday_morning :: component where
  \<comment> \<open>clocked in on Monday 2024-01-01 at 09:00:00 UTC\<close>
  "monday_morning =
     \<lparr>currentTime = 1704099600000, clockInTime = Some 1704099600000, clockOutTime = None,
      totalWorkedToday = 0, weeklyHours = [Num 1, Num 2, Num 3, Num 4, Num 5], hourlyRate = 15\<rparr>"

definition monday_evening :: component where
  \<comment> \<open>opened on Monday 2024-01-01 at 09:00:00 UTC, clocked in at once, clocked out at 17:00:00\<close>
  "monday_evening =
     handleClockOut utc 1704128400000 (handleClockIn 1704099600000 (initial 1704099600000))"


section \<open>Clocking in and out\<close>

lemma spread_Num: "spread (map Num hs) = map Num hs"
  by (simp add: spread_def)

lemma array_store_Num:
  "i < length hs \<Longrightarrow> array_store (map Num hs) i v = map Num (hs[i := v])"
  by (simp add: array_store_def map_update)

lemma WeekDay_range: "0 \<le> WeekDay t \<and> WeekDay t < 7"
  by (simp add: WeekDay_def)

lemma differenceInSeconds_whole:
  "differenceInSeconds (cin + 1000 * n) cin = n"
proof (cases "0 \<le> n")
  case True
  then show ?thesis by (simp add: differenceInSeconds_def Let_def)
next
  case False
  have "(- (1000 * n)) div 1000 = - n"
    by (metis mult_minus_right nonzero_mult_div_cancel_left zero_neq_numeral)
  with False show ?thesis by (simp add: differenceInSeconds_def Let_def)
qed

text \<open>
  C1.  With a session active on five recorded numbers, clocking out at \<open>now\<close> sets the
  clock-out time to \<open>now\<close>; on a local weekday Monday to Friday (day 1 to 5 of the
  week that starts on Sunday) it overwrites the slot of that day, Monday being slot 0, with
  the elapsed whole seconds over 3600, and leaves the length and the other four slots as
  they were.  Between two instants a whole number of seconds apart, the elapsed seconds are
  that number.
\<close>

theorem clockOut_records_weekday:
  assumes "clockInTime s = Some cin" and "clockOutTime s = None"
    and "weeklyHours s = map Num hs" and "length hs = 5"
  shows "clockOutTime (handleClockOut h now s) = Some now
       \<and> (1 \<le> getDay h now \<and> getDay h now \<le> 5 \<longrightarrow>
           weeklyHours (handleClockOut h now s) =
             map Num (hs[nat (getDay h now - 1) := real_of_int (differenceInSeconds now cin) / 3600])
           \<and> (\<forall>j < 5. j \<noteq> nat (getDay h now - 1) \<longrightarrow>
                 weeklyHours (handleClockOut h now s) ! j = weeklyHours s ! j)
           \<and> weeklyHours (handleClockOut h now s) ! nat (getDay h now - 1) =
                 Num (real_of_int (differenceInSeconds now cin) / 3600)
           \<and> length (weeklyHours (handleClockOut h now s)) = 5)
       \<and> (\<forall>secs. now = cin + 1000 * secs \<longrightarrow> differenceInSeconds now cin = secs)"
proof -
  have out: "clockOutTime (handleClockOut h now s) = Some now"
    using assms(1) by (simp add: handleClockOut_def Let_def)
  have secs: "\<forall>secs. now = cin + 1000 * secs \<longrightarrow> differenceInSeconds now cin = secs"
    by (simp add: differenceInSeconds_whole)
  have slots: "weeklyHours (handleClockOut h now s) =
             map Num (hs[nat (getDay h now - 1) := real_of_int (differenceInSeconds now cin) / 3600])
           \<and> (\<forall>j < 5. j \<noteq> nat (getDay h now - 1) \<longrightarrow>
                 weeklyHours (handleClockOut h now s) ! j = weeklyHours s ! j)
           \<and> weeklyHours (handleClockOut h now s) ! nat (getDay h now - 1) =
                 Num (real_of_int (differenceInSeconds now cin) / 3600)
           \<and> length (weeklyHours (handleClockOut h now s)) = 5"
    if wd: "1 \<le> getDay h now \<and> getDay h now \<le> 5"
  proof -
    define i where "i = nat (getDay h now - 1)"
    define v where "v = real_of_int (differenceInSeconds now cin) / 3600"
    from wd have i: "i < length hs" unfolding i_def assms(4) by arith
    from wd assms(1,3) have "weeklyHours (handleClockOut h now s) = array_store (map Num hs) i v"
      unfolding i_def v_def by (simp add: handleClockOut_def Let_def spread_Num)
    then have w: "weeklyHours (handleClockOut h now s) = map Num (hs[i := v])"
      by (simp add: array_store_Num [OF i])
    have others: "\<forall>j < 5. j \<noteq> i \<longrightarrow> weeklyHours (handleClockOut h now s) ! j = weeklyHours s ! j"
      using assms(3,4) by (simp add: w)
    have slot: "weeklyHours (handleClockOut h now s) ! i = Num v"
      using i by (simp add: w)
    have len: "length (weeklyHours (handleClockOut h now s)) = 5"
      by (simp add: w assms(4))
    from w others slot len show ?thesis unfolding i_def v_def by blast
  qed
  from out secs slots show ?thesis by blast
qed

theorem clockOut_records_weekday_witness:
  "clockOutTime (handleClockOut utc 1704128400000 monday_morning) = Some 1704128400000
   \<and> getDay utc 1704128400000 = 1
   \<and> weeklyHours (handleClockOut utc 1704128400000 monday_morning)
       = [Num 8, Num 2, Num 3, Num 4, Num 5]"
proof -
  have d: "getDay utc 1704128400000 = 1"
    by (simp add: getDay_def LocalTime_def WeekDay_def Day_def msPerDay_def utc_def)
  have e: "differenceInSeconds 1704128400000 1704099600000 = 28800"
    by (simp add: differenceInSeconds_def)
  have m: "clockInTime monday_morning = Some 1704099600000 \<and> clockOutTime monday_morning = None
      \<and> weeklyHours monday_morning = map Num [1, 2, 3, 4, 5] \<and> length [1, 2, 3, 4, 5 :: real] = 5"
    by (simp add: monday_morning_def)
  from m clockOut_records_weekday [of monday_morning 1704099600000 "[1, 2, 3, 4, 5]" utc 1704128400000]
  show ?thesis by (simp add: d e)
qed

text \<open>
  C2.  Whatever the state before, clocking in at \<open>now\<close> sets the clock-in time to
  \<open>now\<close>, clears the clock-out time and resets the seconds worked today to 0; the
  weekly hours, the rate and the displayed time are left alone.
\<close>

theorem clockIn_resets:
  "clockInTime (handleClockIn now s) = Some now
   \<and> clockOutTime (handleClockIn now s) = None
   \<and> totalWorkedToday (handleClockIn now s) = 0
   \<and> weeklyHours (handleClockIn now s) = weeklyHours s
   \<and> hourlyRate (handleClockIn now s) = hourlyRate s
   \<and> currentTime (handleClockIn now s) = currentTime s"
  by (simp add: handleClockIn_def)

text \<open>
  C3.  The Clock In button is enabled only when no session is active, the local hour of the
  displayed time is at least 9 and below 17, and its local day of the week is 1 to 5
  (Sunday being 0); the Clock Out button is disabled whenever no session is active, that
  is when none was started or the one started has ended.
\<close>

theorem buttons_gated:
  "(\<not> clockInDisabled h s \<longrightarrow>
       \<not> atWork s
     \<and> 9 \<le> getHours h (currentTime s) \<and> getHours h (currentTime s) < 17
     \<and> getDay h (currentTime s) \<in> {1, 2, 3, 4, 5})
   \<and> (\<not> atWork s \<longrightarrow> clockOutDisabled s)
   \<and> (clockInTime s = None \<longrightarrow> clockOutDisabled s)
   \<and> (clockOutTime s \<noteq> None \<longrightarrow> clockOutDisabled s)"
proof -
  have "getDay h (currentTime s) \<in> {1, 2, 3, 4, 5}"
    if "0 < getDay h (currentTime s)" and "getDay h (currentTime s) < 6"
    using that by (simp add: atLeastAtMost_iff) arith
  then show ?thesis
    by (auto simp add: clockInDisabled_def clockOutDisabled_def atWork_def
        isWorkingHours_def isWeekday_def)
qed

theorem buttons_gated_witness:
  "\<not> clockInDisabled utc (monday_morning\<lparr>clockInTime := None\<rparr>)
   \<and> getHours utc 1704099600000 = 9 \<and> getDay utc 1704099600000 = 1
   \<and> clockOutDisabled (monday_morning\<lparr>clockInTime := None\<rparr>)
   \<and> clockInDisabled utc (monday_morning\<lparr>currentTime := 1704128400000, clockInTime := None\<rparr>)
   \<and> clockInDisabled utc (monday_morning\<lparr>currentTime := 1704013200000, clockInTime := None\<rparr>)"
proof -
  have a: "\<not> clockInDisabled utc (monday_morning\<lparr>clockInTime := None\<rparr>)"
    by (simp add: clockInDisabled_def isWorkingHours_def isWeekday_def getHours_def getDay_def
        LocalTime_def WeekDay_def HourFromTime_def Day_def msPerDay_def msPerHour_def utc_def
        monday_morning_def)
  have b: "clockInDisabled utc (monday_morning\<lparr>currentTime := 1704128400000, clockInTime := None\<rparr>)"
    by (simp add: clockInDisabled_def isWorkingHours_def isWeekday_def getHours_def getDay_def
        LocalTime_def WeekDay_def HourFromTime_def Day_def msPerDay_def msPerHour_def utc_def
        monday_morning_def)
  have c: "clockInDisabled utc (monday_morning\<lparr>currentTime := 1704013200000, clockInTime := None\<rparr>)"
    by (simp add: clockInDisabled_def isWorkingHours_def isWeekday_def getHours_def getDay_def
        LocalTime_def WeekDay_def HourFromTime_def Day_def msPerDay_def msPerHour_def utc_def
        monday_morning_def)
  have t: "currentTime (monday_morning\<lparr>clockInTime := None\<rparr>) = 1704099600000
      \<and> clockInTime (monday_morning\<lparr>clockInTime := None\<rparr>) = None"
    by (simp add: monday_morning_def)
  have hd: "getHours utc 1704099600000 = 9 \<and> getDay utc 1704099600000 = 1"
    by (simp add: getHours_def getDay_def LocalTime_def WeekDay_def HourFromTime_def Day_def
        msPerDay_def msPerHour_def utc_def)
  from a t buttons_gated [of utc "monday_morning\<lparr>clockInTime := None\<rparr>"]
  have "clockOutDisabled (monday_morning\<lparr>clockInTime := None\<rparr>)" by blast
  with a b c hd show ?thesis by blast
qed

text \<open>
  C4.  Clocking out at an instant whose local day of the week is Sunday (0) or Saturday (6)
  leaves the weekly hours exactly as they were, whatever the state; it still sets the
  clock-out time.
\<close>

theorem clockOut_weekend_frame:
  assumes "getDay h now = 0 \<or> getDay h now = 6"
  shows "weeklyHours (handleClockOut h now s) = weeklyHours s
       \<and> clockOutTime (handleClockOut h now s) = Some now"
  using assms by (auto simp add: handleClockOut_def Let_def split: option.splits)

theorem clockOut_weekend_frame_witness:
  "getDay utc 1703937600000 = 6
   \<and> weeklyHours (handleClockOut utc 1703937600000 monday_morning)
       = [Num 1, Num 2, Num 3, Num 4, Num 5]
   \<and> clockOutTime (handleClockOut utc 1703937600000 monday_morning) = Some 1703937600000"
proof -
  have d: "getDay utc 1703937600000 = 6"
    by (simp add: getDay_def LocalTime_def WeekDay_def Day_def msPerDay_def utc_def)
  from d clockOut_weekend_frame [of utc 1703937600000 monday_morning]
  show ?thesis by (simp add: monday_morning_def)
qed

section \<open>Rounding to a double\<close>

lemma pow2_powr: "pow2 e = 2 powr real_of_int e"
proof (cases "0 \<le> e")
  case True
  then have "2 powr real_of_int e = 2 powr real (nat e)" by simp
  also have "\<dots> = 2 ^ nat e" by (rule powr_realpow) simp
  finally show ?thesis using True by (simp add: pow2_def)
next
  case False
  then have "2 powr real_of_int e = 2 powr - real (nat (- e))" by simp
  also have "\<dots> = 1 / 2 powr real (nat (- e))" by (simp add: powr_minus_divide)
  also have "2 powr real (nat (- e)) = 2 ^ nat (- e)" by (rule powr_realpow) simp
  finally show ?thesis using False by (simp add: pow2_def)
qed

lemma pow2_pos: "0 < pow2 e"
  by (simp add: pow2_powr)

lemma pow2_add: "pow2 (a + b) = pow2 a * pow2 b"
  by (simp add: pow2_powr powr_add)

lemma pow2_less_iff: "pow2 a < pow2 b \<longleftrightarrow> a < b"
  by (simp add: pow2_powr)

lemma pow2_le_iff: "pow2 a \<le> pow2 b \<longleftrightarrow> a \<le> b"
  by (simp add: pow2_powr)

lemma pow2_nat: "pow2 (int n) = 2 ^ n"
  by (simp add: pow2_def)

lemma bit_length_bounds:
  "0 < n \<Longrightarrow> 2 ^ (bit_length n - 1) \<le> n \<and> n < 2 ^ bit_length n"
proof (induction n rule: bit_length.induct)
  case (1 n)
  show ?case
  proof (cases "n div 2 \<le> 0")
    case True
    with 1(2) have "n = 1" by linarith
    then show ?thesis by (simp add: bit_length.simps [of 1] bit_length.simps [of 0])
  next
    case False
    with 1 have ih: "2 ^ (bit_length (n div 2) - 1) \<le> n div 2" "n div 2 < 2 ^ bit_length (n div 2)"
      by simp_all
    from False have p: "0 < bit_length (n div 2)" by (simp add: bit_length.simps [of "n div 2"])
    then obtain k where k: "bit_length (n div 2) = Suc k" by (cases "bit_length (n div 2)") auto
    have b: "bit_length n = Suc (Suc k)" using 1(2) k by (simp add: bit_length.simps [of n])
    have "2 * (n div 2) \<le> n" "n < 2 * (n div 2) + 2" by linarith+
    with ih k have "(2::int) ^ Suc k \<le> n" "n < 2 ^ Suc (Suc k)" by simp_all
    with b show ?thesis by simp
  qed
qed

lemma pow_le_of_int: "(2::int) ^ k \<le> n \<Longrightarrow> (2::real) ^ k \<le> real_of_int n"
proof -
  assume "(2::int) ^ k \<le> n"
  then have "real_of_int (2 ^ k) \<le> real_of_int n" by (simp only: of_int_le_iff)
  then show ?thesis by simp
qed

lemma bit_length_pos: "0 < n \<Longrightarrow> 0 < bit_length n"
  by (simp add: bit_length.simps [of n])

lemma binade_bounds:
  assumes "0 < x"
  shows "pow2 (binade x) \<le> x \<and> x < pow2 (binade x + 1)"
proof (cases "1 \<le> x")
  case True
  define n where "n = \<lfloor>x\<rfloor>"
  from True have n: "0 < n" by (simp add: n_def)
  from bit_length_pos [OF n] obtain k where k: "bit_length n = Suc k"
    by (cases "bit_length n") auto
  from bit_length_bounds [OF n] k have b: "2 ^ k \<le> n" "n < 2 ^ Suc k" by simp_all
  have e: "binade x = int k" using True k by (simp add: binade_def n_def)
  have "real_of_int n \<le> x" "x < real_of_int n + 1" by (simp_all add: n_def)
  moreover from b(1) have "(2::real) ^ k \<le> real_of_int n"
    by (rule pow_le_of_int)
  moreover from b(2) have "n + 1 \<le> 2 ^ Suc k" by simp
  then have "real_of_int (n + 1) \<le> real_of_int (2 ^ Suc k)" by (simp only: of_int_le_iff)
  then have "real_of_int n + 1 \<le> 2 ^ Suc k" by simp
  ultimately have "2 ^ k \<le> x" "x < 2 ^ Suc k" by linarith+
  moreover have "pow2 (int k + 1) = 2 ^ Suc k" using pow2_nat [of "Suc k"] by (simp add: add.commute)
  ultimately show ?thesis by (simp add: e pow2_nat)
next
  case False
  define y where "y = 1 / x"
  define n where "n = \<lceil>y\<rceil> - 1"
  from False assms have y1: "1 < y" by (simp add: y_def)
  then have "1 < \<lceil>y\<rceil>" by (simp add: less_ceiling_iff)
  then have n: "0 < n" by (simp add: n_def)
  from bit_length_pos [OF n] obtain k where k: "bit_length n = Suc k"
    by (cases "bit_length n") auto
  from bit_length_bounds [OF n] k have b: "2 ^ k \<le> n" "n < 2 ^ Suc k" by simp_all
  have e: "binade x = - int (Suc k)" using False k by (simp add: binade_def n_def y_def)
  have yn: "real_of_int n < y" "y \<le> real_of_int n + 1"
    unfolding n_def by (simp_all add: ceiling_correct)
  from b(1) have "(2::real) ^ k \<le> real_of_int n"
    by (rule pow_le_of_int)
  with yn have lo: "2 ^ k < y" by linarith
  from b(2) have "n + 1 \<le> 2 ^ Suc k" by simp
  then have "real_of_int (n + 1) \<le> real_of_int (2 ^ Suc k)" by (simp only: of_int_le_iff)
  then have "real_of_int n + 1 \<le> 2 ^ Suc k" by simp
  with yn have hi: "y \<le> 2 ^ Suc k" by linarith
  have x: "x = 1 / y" using assms by (simp add: y_def)
  from hi y1 have "1 / 2 ^ Suc k \<le> x" unfolding x by (intro divide_left_mono) simp_all
  moreover from lo y1 have "x < 1 / 2 ^ k" unfolding x by (intro divide_strict_left_mono) simp_all
  moreover have "pow2 (- int (Suc k)) = 1 / 2 ^ Suc k"
  proof -
    have "nat (int (Suc k)) = Suc k" by (rule nat_int)
    then show ?thesis by (simp add: pow2_def del: of_nat_Suc)
  qed
  moreover have "pow2 (- int (Suc k) + 1) = 1 / 2 ^ k"
  proof -
    have "- int (Suc k) + 1 = - int k" by simp
    moreover have "pow2 (- int k) = 1 / 2 ^ k" by (cases k) (simp_all add: pow2_def del: of_nat_Suc)
    ultimately show ?thesis by simp
  qed
  ultimately show ?thesis by (simp add: e)
qed

lemma binade_unique:
  assumes "pow2 e \<le> x" and "x < pow2 (e + 1)"
  shows "binade x = e"
proof -
  from assms(1) pow2_pos [of e] have x: "0 < x" by linarith
  note b = binade_bounds [OF x]
  from b assms have "pow2 (binade x) < pow2 (e + 1)" "pow2 e < pow2 (binade x + 1)" by linarith+
  then show ?thesis by (simp add: pow2_less_iff)
qed

lemma round_even_close: "\<bar>real_of_int (round_even y) - y\<bar> \<le> 1 / 2"
proof -
  have "real_of_int \<lfloor>y\<rfloor> \<le> y" "y < real_of_int \<lfloor>y\<rfloor> + 1" by linarith+
  then show ?thesis by (auto simp add: round_even_def Let_def abs_le_iff)
qed

lemma round_even_int: "round_even (real_of_int k) = k"
  by (simp add: round_even_def)

lemma round_even_unique: "\<bar>real_of_int m - y\<bar> < 1 / 2 \<Longrightarrow> round_even y = m"
proof -
  assume a: "\<bar>real_of_int m - y\<bar> < 1 / 2"
  have f: "real_of_int \<lfloor>y\<rfloor> \<le> y" "y < real_of_int \<lfloor>y\<rfloor> + 1" by linarith+
  show ?thesis
  proof (cases "y - real_of_int \<lfloor>y\<rfloor> < 1 / 2")
    case True
    with a f have "real_of_int m < real_of_int \<lfloor>y\<rfloor> + 1" "real_of_int \<lfloor>y\<rfloor> - 1 < real_of_int m"
      by linarith+
    then have "m = \<lfloor>y\<rfloor>" by linarith
    with True show ?thesis by (simp add: round_even_def Let_def)
  next
    case False
    with a f have "real_of_int m < real_of_int \<lfloor>y\<rfloor> + 2" "real_of_int \<lfloor>y\<rfloor> < real_of_int m"
      by linarith+
    then have m: "m = \<lfloor>y\<rfloor> + 1" by linarith
    with a have "y - real_of_int \<lfloor>y\<rfloor> \<noteq> 1 / 2" by auto
    with False m show ?thesis by (simp add: round_even_def Let_def)
  qed
qed

lemma to_double_rounds:
  assumes "pow2 e \<le> \<bar>x\<bar>" and "\<bar>x\<bar> < pow2 (e + 1)"
    and "q = pow2 (max (e - 52) (- 1074))"
    and "round_even (x / q) = m"
    and "\<bar>q * real_of_int m\<bar> < 2 ^ 1024"
  shows "to_double x = Finite (q * real_of_int m)"
proof -
  from assms(1) pow2_pos [of e] have "x \<noteq> 0" by auto
  moreover have "binade \<bar>x\<bar> = e" using assms(1,2) by (rule binade_unique)
  ultimately show ?thesis
    using assms(3,4,5) by (auto simp add: to_double_def Let_def abs_less_iff)
qed

lemma to_double_close:
  assumes "pow2 (- 1022) \<le> \<bar>x\<bar>" and "\<bar>x\<bar> < 2 ^ 1023"
  shows "\<exists>y. to_double x = Finite y \<and> \<bar>y - x\<bar> \<le> \<bar>x\<bar> / 2 ^ 53"
proof -
  from assms(1) pow2_pos [of "- 1022"] have x: "0 < \<bar>x\<bar>" by linarith
  define e where "e = binade \<bar>x\<bar>"
  note b = binade_bounds [OF x, folded e_def]
  from assms(1) b have "pow2 (- 1022) < pow2 (e + 1)" by linarith
  then have e: "- 1022 \<le> e" by (simp add: pow2_less_iff)
  define q where "q = pow2 (e - 52)"
  have "max (e - 52) (- 1074) = e - 52" using e by linarith
  then have q: "q = pow2 (max (e - 52) (- 1074))" by (simp add: q_def)
  have qpos: "0 < q" by (simp add: q_def pow2_pos)
  have qe: "q * 2 ^ 52 = pow2 e"
  proof -
    have "pow2 e = pow2 ((e - 52) + 52)" by simp
    also have "\<dots> = pow2 (e - 52) * pow2 52" by (rule pow2_add)
    also have "pow2 52 = 2 ^ 52" by (simp add: pow2_def)
    finally show ?thesis by (simp add: q_def)
  qed
  define m where "m = round_even (x / q)"
  define y where "y = q * real_of_int m"
  have "\<bar>real_of_int m - x / q\<bar> \<le> 1 / 2" unfolding m_def by (rule round_even_close)
  then have "\<bar>q * (real_of_int m - x / q)\<bar> \<le> q * (1 / 2)"
    using qpos by (simp add: abs_mult)
  moreover have "q * (real_of_int m - x / q) = y - x"
    using qpos by (simp add: y_def algebra_simps)
  ultimately have d: "\<bar>y - x\<bar> \<le> q / 2" by simp
  from qe b have "q * 2 ^ 52 \<le> \<bar>x\<bar>" by simp
  then have q2: "q / 2 \<le> \<bar>x\<bar> / 2 ^ 53" by (simp add: field_simps)
  from d q2 have c: "\<bar>y - x\<bar> \<le> \<bar>x\<bar> / 2 ^ 53" by linarith
  have "\<bar>x\<bar> / 2 ^ 53 \<le> \<bar>x\<bar>" by (simp add: field_simps)
  with c have "\<bar>y\<bar> \<le> 2 * \<bar>x\<bar>" by linarith
  with assms(2) have "\<bar>y\<bar> < 2 ^ 1024" by simp
  with b q have "to_double x = Finite y"
    unfolding y_def m_def by (intro to_double_rounds [where e = e]) simp_all
  with c show ?thesis by blast
qed

lemma to_double_int:
  assumes "\<bar>n\<bar> < 2 ^ 53"
  shows "to_double (real_of_int n) = Finite (real_of_int n)"
proof (cases "n = 0")
  case True
  then show ?thesis by (simp add: to_double_def)
next
  case False
  define x where "x = real_of_int n"
  from False have x1: "1 \<le> \<bar>x\<bar>" by (simp add: x_def)
  then have x: "0 < \<bar>x\<bar>" by linarith
  define e where "e = binade \<bar>x\<bar>"
  note b = binade_bounds [OF x, folded e_def]
  from assms have "\<bar>x\<bar> < 2 ^ 53"
  proof -
    from assms have "real_of_int \<bar>n\<bar> < real_of_int (2 ^ 53)" by (simp only: of_int_less_iff)
    then show ?thesis by (simp add: x_def)
  qed
  with b have "pow2 e < pow2 53" by (simp add: pow2_def)
  then have e53: "e \<le> 52" by (simp add: pow2_less_iff)
  from x1 b have "pow2 0 < pow2 (e + 1)" by (simp add: pow2_def)
  then have e0: "0 \<le> e" by (simp add: pow2_less_iff)
  define k where "k = nat (52 - e)"
  define q where "q = pow2 (max (e - 52) (- 1074))"
  have q: "q = 1 / 2 ^ k"
  proof (cases "e = 52")
    case True
    then show ?thesis by (simp add: q_def k_def pow2_def)
  next
    case False
    with e53 e0 have "max (e - 52) (- 1074) = e - 52" "\<not> 0 \<le> e - 52" "- (e - 52) = 52 - e"
      by simp_all
    then show ?thesis by (simp add: q_def k_def pow2_def)
  qed
  have xq: "x / q = real_of_int (n * 2 ^ k)" by (simp add: q x_def)
  have r: "round_even (x / q) = n * 2 ^ k" unfolding xq by (rule round_even_int)
  have v: "q * real_of_int (n * 2 ^ k) = x" by (simp add: q x_def)
  have "to_double x = Finite (q * real_of_int (n * 2 ^ k))"
  proof (rule to_double_rounds [where e = e])
    show "pow2 e \<le> \<bar>x\<bar>" "\<bar>x\<bar> < pow2 (e + 1)" using b by simp_all
    show "q = pow2 (max (e - 52) (- 1074))" by (simp add: q_def)
    show "round_even (x / q) = n * 2 ^ k" by (rule r)
    show "\<bar>q * real_of_int (n * 2 ^ k)\<bar> < 2 ^ 1024"
      unfolding v using \<open>\<bar>x\<bar> < 2 ^ 53\<close>
      by (rule less_trans) simp
  qed
  then show ?thesis unfolding v by (simp add: x_def)
qed

lemma to_double_exact:
  assumes "pow2 e \<le> \<bar>x\<bar>" and "\<bar>x\<bar> < pow2 (e + 1)"
    and "x = pow2 (max (e - 52) (- 1074)) * real_of_int m" and "\<bar>x\<bar> < 2 ^ 1024"
  shows "to_double x = Finite x"
proof -
  define q where "q = pow2 (max (e - 52) (- 1074))"
  have qpos: "0 < q" by (simp add: q_def pow2_pos)
  have x: "x = q * real_of_int m" using assms(3) by (simp add: q_def)
  then have "x / q = real_of_int m" using qpos by simp
  then have "round_even (x / q) = m" by (simp add: round_even_int)
  with assms(1,2) have "to_double x = Finite (q * real_of_int m)"
  proof (rule to_double_rounds [OF _ _ q_def])
    show "\<bar>q * real_of_int m\<bar> < 2 ^ 1024" using assms(4) by (simp add: x)
  qed
  then show ?thesis by (simp add: x)
qed

section \<open>Digits written and read back\<close>

lemma below_ten: "d < 10 \<Longrightarrow> d \<in> {0, 1, 2, 3, 4, 5, 6, 7, 8, 9::nat}"
  by auto

lemma digit_val_digit_char: "d < 10 \<Longrightarrow> digit_val (digit_char d) = Some d"
  by (drule below_ten) (auto simp add: digit_val_def digit_char_def)

lemma digit_char_in: "d < 10 \<Longrightarrow> digit_char d \<in> set ''0123456789''"
  by (drule below_ten) (auto simp add: digit_char_def)

lemma read_digits_snoc:
  "d < 10 \<Longrightarrow>
   read_digits acc (xs @ [digit_char d]) = map_option (\<lambda>v. 10 * v + d) (read_digits acc xs)"
  by (induction xs arbitrary: acc) (auto simp add: digit_val_digit_char split: option.splits)

lemma read_digits_toString: "read_digits 0 (toString_nat n) = Some n"
proof (induction n rule: toString_nat.induct)
  case (1 n)
  show ?case
  proof (cases "n < 10")
    case True
    then show ?thesis by (simp add: toString_nat.simps [of n] digit_val_digit_char)
  next
    case False
    with 1 have "read_digits 0 (toString_nat (n div 10)) = Some (n div 10)" by simp
    with False show ?thesis
      by (subst toString_nat.simps) (simp add: read_digits_snoc)
  qed
qed

lemma toString_nat_digits: "set (toString_nat v) \<subseteq> set ''0123456789''"
proof (induction v rule: toString_nat.induct)
  case (1 v)
  show ?case
  proof (cases "v < 10")
    case True
    then show ?thesis using digit_char_in [of v] by (simp add: toString_nat.simps [of v])
  next
    case False
    with 1 have "set (toString_nat (v div 10)) \<subseteq> set ''0123456789''" by simp
    moreover have "digit_char (v mod 10) \<in> set ''0123456789''" by (rule digit_char_in) simp
    ultimately show ?thesis using False by (simp add: toString_nat.simps [of v])
  qed
qed

lemma toString_nat_nonempty: "toString_nat n \<noteq> []"
  by (subst toString_nat.simps) simp

lemma length_toString_nat: "v < 10 ^ n \<Longrightarrow> 0 < n \<Longrightarrow> length (toString_nat v) \<le> n"
proof (induction v arbitrary: n rule: toString_nat.induct)
  case (1 v)
  show ?case
  proof (cases "v < 10")
    case True
    with 1(3) show ?thesis by (simp add: toString_nat.simps [of v])
  next
    case False
    from 1(3) obtain k where n: "n = Suc k" by (cases n) auto
    from False 1(2) n have k: "0 < k" by (cases k) auto
    from 1(2) n have "v div 10 < 10 ^ k" by (simp add: less_mult_imp_div_less mult.commute)
    with 1(1) False k have "length (toString_nat (v div 10)) \<le> k" by simp
    with False n show ?thesis by (simp add: toString_nat.simps [of v])
  qed
qed

lemma read_digits_zeros: "read_digits 0 (replicate k CHR ''0'' @ s) = read_digits 0 s"
  by (induction k) (simp_all add: digit_val_def)

lemma pad_digits: "set (pad n v) \<subseteq> set ''0123456789''"
  using toString_nat_digits [of v] by (auto simp add: pad_def padStart_def)

lemma pad_nonempty: "pad n v \<noteq> []"
  by (simp add: pad_def padStart_def toString_nat_nonempty)

lemma length_pad: "v < 10 ^ n \<Longrightarrow> 0 < n \<Longrightarrow> length (pad n v) = n"
  using length_toString_nat [of v n] by (simp add: pad_def padStart_def)

lemma length_pad_ge: "n \<le> length (pad n v)"
  by (simp add: pad_def padStart_def)

lemma read_digits_pad: "read_digits 0 (pad n v) = Some v"
  by (simp add: pad_def padStart_def read_digits_zeros read_digits_toString)

lemma read_nat_pad: "read_nat (pad n v) = Some v"
  by (simp add: read_nat_def pad_nonempty read_digits_pad)

lemma split_on_no_sep: "c \<notin> set a \<Longrightarrow> split_on c a = [a]"
  by (induction a) auto

lemma split_on_sep: "c \<notin> set a \<Longrightarrow> split_on c (a @ c # rest) = a # split_on c rest"
  by (induction a) auto

lemma colon_notin_pad: "CHR '':'' \<notin> set (pad n v)"
  using pad_digits [of n v] by auto

lemma decimal_nat: "0 \<le> i \<Longrightarrow> decimal i = toString_nat (nat i)"
proof (induction i rule: decimal.induct)
  case (1 i)
  show ?case
  proof (cases "i < 10")
    case True
    with 1(2) have "nat i < 10" by simp
    with True show ?thesis
      by (simp add: decimal.simps [of i] toString_nat.simps [of "nat i"])
  next
    case False
    with 1 have ih: "decimal (i div 10) = toString_nat (nat (i div 10))" by simp
    from 1(2) have "nat (i div 10) = nat i div 10" "nat (i mod 10) = nat i mod 10"
      by (simp_all add: nat_div_distrib nat_mod_distrib)
    moreover from False 1(2) have "\<not> nat i < 10" by simp
    ultimately show ?thesis using False ih
      by (simp add: decimal.simps [of i] toString_nat.simps [of "nat i"])
  qed
qed

lemma of_int_less_pow53: "i < 2 ^ 53 \<Longrightarrow> real_of_int i < 2 ^ 53"
proof -
  assume "i < 2 ^ 53"
  then have "real_of_int i < real_of_int (2 ^ 53)" by (simp only: of_int_less_iff)
  then show ?thesis by simp
qed

subsection \<open>The digits of an integer below \<open>2\<^sup>5\<^sup>3\<close>\<close>

text \<open>
  An integer below \<open>2\<^sup>5\<^sup>3\<close> is a double, and no decimal of fewer digits is read as
  it, so \<open>toString()\<close> writes it with all its digits.
\<close>

lemma decimal_length:
  "0 < i \<Longrightarrow> 10 ^ (length (decimal i) - 1) \<le> i \<and> i < 10 ^ length (decimal i)"
proof (induction i rule: decimal.induct)
  case (1 i)
  show ?case
  proof (cases "i < 10")
    case True
    with 1(2) show ?thesis by (simp add: decimal.simps [of i])
  next
    case False
    then have p: "0 < i div 10" by simp
    define L where "L = length (decimal (i div 10))"
    from 1(1) [OF False p] have ih: "10 ^ (L - 1) \<le> i div 10" "i div 10 < 10 ^ L"
      by (simp_all add: L_def)
    have "L \<noteq> 0" by (simp add: L_def decimal.simps [of "i div 10"])
    then obtain m where m: "L = Suc m" by (cases L) auto
    have len: "length (decimal i) = Suc L" using False by (simp add: decimal.simps [of i] L_def)
    have "10 * (i div 10) \<le> i" "i < 10 * (i div 10) + 10" by linarith+
    moreover from ih(2) have "i div 10 + 1 \<le> 10 ^ L" by simp
    ultimately have "10 ^ L \<le> i" "i < 10 ^ Suc L" using ih(1) m by simp_all
    then show ?thesis by (simp add: len)
  qed
qed

lemma decimal_shift: "0 < s \<Longrightarrow> decimal (s * 10 ^ z) = decimal s @ replicate z CHR ''0''"
proof (induction z)
  case 0
  then show ?case by simp
next
  case (Suc z)
  define n where "n = s * 10 ^ z"
  from Suc.prems have "0 < n" by (simp add: n_def)
  then have "\<not> n * 10 < 10" by simp
  moreover have "n * 10 div 10 = n" "n * 10 mod 10 = 0" by simp_all
  ultimately have "decimal (n * 10) = decimal n @ [digit_char 0]"
    by (simp add: decimal.simps [of "n * 10"])
  also have "\<dots> = decimal s @ replicate z CHR ''0'' @ [CHR ''0'']"
    using Suc by (simp add: digit_char_def n_def)
  also have "replicate z CHR ''0'' @ [CHR ''0''] = replicate (Suc z) CHR ''0''"
    by (simp add: replicate_append_same)
  finally show ?case by (simp add: n_def mult.assoc mult.commute [of 10])
qed

lemma to_double_big:
  assumes "2 ^ 53 \<le> x" and "y < 2 ^ 53"
  shows "to_double x \<noteq> Finite y"
proof -
  from assms(1) have x: "0 < x" by (rule less_le_trans [rotated]) simp
  define e where "e = binade x"
  note b = binade_bounds [OF x, folded e_def]
  have "pow2 53 = 2 ^ 53" by (simp add: pow2_def)
  with assms(1) b have "pow2 53 < pow2 (e + 1)" by linarith
  then have e: "53 \<le> e" by (simp add: pow2_less_iff)
  define q where "q = pow2 (e - 52)"
  have qpos: "0 < q" by (simp add: q_def pow2_pos)
  have qe: "q * 2 ^ 52 = pow2 e"
  proof -
    have "pow2 e = pow2 ((e - 52) + 52)" by simp
    also have "\<dots> = pow2 (e - 52) * pow2 52" by (rule pow2_add)
    also have "pow2 52 = 2 ^ 52" by (simp add: pow2_def)
    finally show ?thesis by (simp add: q_def)
  qed
  have m: "max (e - 52) (- 1074) = e - 52" using e by linarith
  define m where "m = round_even (x / q)"
  have "2 ^ 52 \<le> x / q" using b qe qpos by (simp add: field_simps)
  moreover have "\<bar>real_of_int m - x / q\<bar> \<le> 1 / 2" unfolding m_def by (rule round_even_close)
  ultimately have "(2 ^ 52 :: real) - 1 / 2 \<le> real_of_int m" by linarith
  then have "real_of_int (2 ^ 52 - 1) < real_of_int m" by simp
  then have "2 ^ 52 - 1 < m" by (simp only: of_int_less_iff)
  then have "2 ^ 52 \<le> m" by simp
  then have "real_of_int (2 ^ 52) \<le> real_of_int m" by (simp only: of_int_le_iff)
  then have "q * 2 ^ 52 \<le> q * real_of_int m" using qpos by simp
  with qe have "pow2 e \<le> q * real_of_int m" by simp
  moreover have "pow2 53 \<le> pow2 e" using e by (simp add: pow2_le_iff)
  ultimately have big: "2 ^ 53 \<le> q * real_of_int m" by (simp add: pow2_def)
  have "to_double x = (if 2 ^ 1024 \<le> q * real_of_int m then PosInfinity else Finite (q * real_of_int m))"
  proof -
    have "\<not> q * real_of_int m \<le> - (2 ^ 1024)" using big by (simp add: not_le)
    then show ?thesis using x
      by (simp add: to_double_def Let_def e_def [symmetric] m q_def [symmetric] m_def [symmetric])
  qed
  with big assms(2) show ?thesis by auto
qed

lemma double_not_integer:
  assumes "0 \<le> v" and "v \<noteq> i" and "i < 2 ^ 53"
  shows "to_double (real_of_int v) \<noteq> Finite (real_of_int i)"
proof (cases "v < 2 ^ 53")
  case True
  with assms(1) have "\<bar>v\<bar> < 2 ^ 53" by simp
  then have "to_double (real_of_int v) = Finite (real_of_int v)" by (rule to_double_int)
  with assms(2) show ?thesis by simp
next
  case False
  then have "2 ^ 53 \<le> v" by simp
  then have "real_of_int (2 ^ 53) \<le> real_of_int v" by (simp only: of_int_le_iff)
  then have "2 ^ 53 \<le> real_of_int v" by simp
  moreover have "real_of_int i < 2 ^ 53" using assms(3) by (rule of_int_less_pow53)
  ultimately show ?thesis by (rule to_double_big)
qed

lemma candidates_integer:
  assumes "0 < i" and "i < 2 ^ 53" and "d = length (decimal i)" and "1 \<le> k" and "k \<le> int d"
  shows "digit_candidates (real_of_int i) k =
    (if 10 ^ (d - nat k) dvd i then [(int d, k, i div 10 ^ (d - nat k))] else [])"
proof -
  define P :: int where "P = 10 ^ (d - nat k)"
  define lo where "lo = i div P"
  have Ppos: "0 < P" by (simp add: P_def)
  from assms(1) have x1: "1 \<le> real_of_int i" by simp
  have n: "decade (real_of_int i) = int d" using x1 by (simp add: decade_def assms(3))
  have "nat (int d - k) = d - nat k" using assms(4) by simp
  then have p: "pow10 (int d - k) = real_of_int P" using assms(5) by (simp add: pow10_def P_def)
  have fl: "\<lfloor>real_of_int i / real_of_int P\<rfloor> = lo"
    unfolding lo_def by (rule floor_divide_of_int_eq)
  have lo0: "0 \<le> lo" using assms(1) Ppos by (simp add: lo_def pos_imp_zdiv_nonneg_iff)
  have le: "lo * P \<le> i" and lt: "i < (lo + 1) * P"
  proof -
    have "i = P * lo + i mod P" by (simp add: lo_def)
    moreover have "0 \<le> i mod P" "i mod P < P" using Ppos by simp_all
    ultimately show "lo * P \<le> i" "i < (lo + 1) * P" by (simp_all add: algebra_simps)
  qed
  note bounds = decimal_length [OF assms(1), folded assms(3)]
  have below: "to_double (real_of_int lo * real_of_int P) = Finite (real_of_int i) \<longleftrightarrow> P dvd i"
  proof (cases "lo * P = i")
    case True
    from assms(1,2) have "\<bar>i\<bar> < 2 ^ 53" by simp
    then have "to_double (real_of_int i) = Finite (real_of_int i)" by (rule to_double_int)
    moreover have "real_of_int lo * real_of_int P = real_of_int i"
      using True by (simp flip: of_int_mult)
    moreover have "P dvd i" using True by (metis dvd_triv_right)
    ultimately show ?thesis by simp
  next
    case False
    have "0 \<le> lo * P" using lo0 Ppos by simp
    then have "to_double (real_of_int (lo * P)) \<noteq> Finite (real_of_int i)"
      using False assms(2) by (rule double_not_integer)
    moreover have "\<not> P dvd i"
    proof
      assume "P dvd i"
      then have "i div P * P = i" by simp
      with False show False by (simp add: lo_def)
    qed
    ultimately show ?thesis by simp
  qed
  have above: "to_double (real_of_int (lo + 1) * real_of_int P) \<noteq> Finite (real_of_int i)"
  proof -
    have "0 \<le> (lo + 1) * P" using lo0 Ppos by simp
    moreover have "(lo + 1) * P \<noteq> i" using lt by simp
    ultimately have "to_double (real_of_int ((lo + 1) * P)) \<noteq> Finite (real_of_int i)"
      using assms(2) by (rule double_not_integer)
    then show ?thesis by simp
  qed
  have carry: "to_double (pow10 (int d)) \<noteq> Finite (real_of_int i)"
  proof -
    have "(0::int) \<le> 10 ^ d" by simp
    moreover have "(10::int) ^ d \<noteq> i" using bounds by simp
    ultimately have "to_double (real_of_int (10 ^ d)) \<noteq> Finite (real_of_int i)"
      using assms(2) by (rule double_not_integer)
    then show ?thesis by (simp add: pow10_def)
  qed
  show ?thesis
    unfolding digit_candidates_def Let_def n p fl
    using below above carry by (simp add: P_def [symmetric] lo_def [symmetric])
qed

lemma shortest_digits_integer:
  assumes "0 < i" and "i < 2 ^ 53" and "d = length (decimal i)"
  shows "\<exists>k. 1 \<le> k \<and> k \<le> d \<and> 10 ^ (d - k) dvd i
           \<and> shortest_digits (real_of_int i) = (int d, int k, i div 10 ^ (d - k))"
proof -
  note bounds = decimal_length [OF assms(1), folded assms(3)]
  have d1: "1 \<le> d" by (simp add: assms(3) decimal.simps [of i] Suc_le_eq)
  have d16: "d \<le> 16"
  proof -
    have "(2::int) ^ 53 < 10 ^ 16" by simp
    with assms(2) bounds have "(10::int) ^ (d - 1) < 10 ^ 16" by linarith
    with one_less_numeral_iff [THEN iffD2] have "d - 1 < 16"
      by (rule power_less_imp_less_exp) simp
    then show ?thesis by simp
  qed
  define k where "k = (LEAST k. 1 \<le> k \<and> k \<le> d \<and> 10 ^ (d - k) dvd i)"
  have "1 \<le> d \<and> d \<le> d \<and> 10 ^ (d - d) dvd i" using d1 by simp
  then have k: "1 \<le> k \<and> k \<le> d \<and> 10 ^ (d - k) dvd i"
    unfolding k_def by (rule LeastI)
  have least: "\<not> 10 ^ (d - j) dvd i" if "1 \<le> j" "j < k" for j
  proof
    assume "10 ^ (d - j) dvd i"
    with that k have "1 \<le> j \<and> j \<le> d \<and> 10 ^ (d - j) dvd i" by simp
    then have "k \<le> j" unfolding k_def by (rule Least_le)
    with that(2) show False by simp
  qed
  have before: "digit_candidates (real_of_int i) j = []" if "j \<in> set [1..int k - 1]" for j
  proof -
    from that have j: "1 \<le> j" "j < int k" by simp_all
    then have "1 \<le> nat j" "nat j < k" by simp_all
    then have "\<not> 10 ^ (d - nat j) dvd i" by (rule least)
    moreover have "j \<le> int d" using j k by simp
    ultimately show ?thesis
      using candidates_integer [OF assms j(1)] by simp
  qed
  have at: "digit_candidates (real_of_int i) (int k) = [(int d, int k, i div 10 ^ (d - k))]"
    using candidates_integer [OF assms, of "int k"] k by simp
  have "[1..17] = [1..int k - 1] @ [int k..17]"
    using k d16 by (intro upto_split1) simp_all
  also have "[int k..17] = int k # [int k + 1..17]"
    using k d16 by (intro upto_rec1) simp
  finally have "concat (map (digit_candidates (real_of_int i)) [1..17])
      = concat (map (digit_candidates (real_of_int i)) [1..int k - 1])
        @ (int d, int k, i div 10 ^ (d - k)) # concat (map (digit_candidates (real_of_int i)) [int k + 1..17])"
    by (simp add: at)
  moreover have "concat (map (digit_candidates (real_of_int i)) [1..int k - 1]) = []"
    using before by simp
  ultimately have "shortest_digits (real_of_int i) = (int d, int k, i div 10 ^ (d - k))"
    by (simp add: shortest_digits_def)
  with k show ?thesis by blast
qed

lemma toString_integer:
  assumes "0 \<le> i" and "i < 2 ^ 53"
  shows "Number_toString (Finite (real_of_int i)) = toString_nat (nat i)"
proof (cases "i = 0")
  case True
  then show ?thesis
    by (simp add: Number_toString_def toString_nat.simps [of 0] digit_char_def)
next
  case False
  with assms(1) have pos: "0 < i" by simp
  define d where "d = length (decimal i)"
  from shortest_digits_integer [OF pos assms(2) d_def]
  obtain k where k: "1 \<le> k" "k \<le> d" "10 ^ (d - k) dvd i"
    "shortest_digits (real_of_int i) = (int d, int k, i div 10 ^ (d - k))" by blast
  define s where "s = i div 10 ^ (d - k)"
  from k(3) have i: "i = s * 10 ^ (d - k)" by (simp add: s_def)
  with pos have spos: "0 < s" by (simp add: zero_less_mult_iff)
  note bounds = decimal_length [OF pos, folded d_def]
  have "(2::int) ^ 53 < 10 ^ 16" by simp
  with assms(2) bounds have "(10::int) ^ (d - 1) < 10 ^ 16" by linarith
  with one_less_numeral_iff [THEN iffD2] have "d - 1 < 16"
    by (rule power_less_imp_less_exp) simp
  then have d21: "int d \<le> 21" by simp
  have "nat (int d - int k) = d - k" by simp
  moreover have "decimal s @ replicate (d - k) CHR ''0'' = decimal i"
    using decimal_shift [OF spos, of "d - k"] i by simp
  ultimately have "positive_toString (real_of_int i) = decimal i"
    using k(1,2) d21 by (simp add: positive_toString_def k(4) s_def [symmetric] Let_def)
  then show ?thesis using pos
    by (simp add: Number_toString_def decimal_nat)
qed

lemma floor_quotient:
  assumes "0 \<le> s" and "s < 2 ^ 53" and "0 < c" and "c \<le> 3600"
  shows "Math_floor (ddiv (Finite (real_of_int s)) (real_of_int c)) = Finite (real_of_int (s div c))"
proof -
  define k where "k = s div c"
  define r where "r = s mod c"
  define x where "x = real_of_int s / real_of_int c"
  have s: "s = c * k + r" by (simp add: k_def r_def)
  have r: "0 \<le> r" "r < c" using assms(3) by (simp_all add: r_def)
  have k: "0 \<le> k" using assms(1,3) by (simp add: k_def pos_imp_zdiv_nonneg_iff)
  have cpos: "0 < real_of_int c" using assms(3) by simp
  have xs: "x = real_of_int k + real_of_int r / real_of_int c"
    using cpos by (simp add: x_def s field_simps)
  have "\<exists>y. to_double x = Finite y \<and> \<lfloor>y\<rfloor> = k"
  proof (cases "r = 0")
    case True
    then have xk: "x = real_of_int k" by (simp add: xs)
    have "c * k \<le> s" by (simp add: s r)
    moreover have "k \<le> c * k" using k assms(3) by (simp add: mult_le_cancel_right1)
    ultimately have "\<bar>k\<bar> < 2 ^ 53" using k assms(2) by linarith
    then have "to_double (real_of_int k) = Finite (real_of_int k)" by (rule to_double_int)
    then show ?thesis by (simp add: xk)
  next
    case False
    with r have r1: "1 \<le> r" "r \<le> c - 1" by simp_all
    then have rr: "1 \<le> real_of_int r" "real_of_int r \<le> real_of_int c - 1"
      by linarith+
    have c1: "1 \<le> real_of_int c" using assms(3) by linarith
    from rr(1) have lo: "1 / real_of_int c \<le> real_of_int r / real_of_int c"
      using cpos by (simp add: divide_le_cancel)
    from rr(2) have "real_of_int r / real_of_int c \<le> (real_of_int c - 1) / real_of_int c"
      using cpos by (simp add: divide_le_cancel)
    also have "\<dots> = 1 - 1 / real_of_int c" using cpos by (simp add: field_simps)
    finally have hi: "real_of_int r / real_of_int c \<le> 1 - 1 / real_of_int c" .
    have k0: "0 \<le> real_of_int k" using k by simp
    have xlo: "real_of_int k + 1 / real_of_int c \<le> x"
      and xhi: "x \<le> real_of_int k + 1 - 1 / real_of_int c"
      using lo hi by (simp_all add: xs)
    have xpos: "0 < x" using xlo k0 cpos by (smt (verit) divide_pos_pos)
    have s53: "real_of_int s < 2 ^ 53" using assms(2) by (rule of_int_less_pow53)
    have xc: "x * real_of_int c = real_of_int s" using cpos by (simp add: x_def)
    have err: "x / 2 ^ 53 < 1 / real_of_int c"
    proof -
      have "x * real_of_int c < 2 ^ 53" using s53 by (simp add: xc)
      then show ?thesis using cpos by (simp add: field_simps)
    qed
    have "real_of_int s \<le> real_of_int s * real_of_int c"
      using c1 assms(1) by (simp add: mult_le_cancel_left1)
    then have "x \<le> real_of_int s" using cpos by (simp add: x_def field_simps)
    moreover have "(2::real) ^ 53 < 2 ^ 1023" by simp
    ultimately have "x < 2 ^ 1023" using s53 by linarith
    moreover have "pow2 (- 1022) \<le> x"
    proof -
      have "pow2 (- 1022) \<le> pow2 (- 12)" by (simp add: pow2_le_iff)
      also have "pow2 (- 12) = 1 / 4096" by (simp add: pow2_def)
      also have "1 / 4096 \<le> 1 / real_of_int c"
      proof -
        from assms(4) have "real_of_int c \<le> 4096" by linarith
        with cpos show ?thesis by (simp add: field_simps)
      qed
      also have "1 / real_of_int c \<le> x" using xlo k0 by linarith
      finally show ?thesis .
    qed
    ultimately obtain y where y: "to_double x = Finite y" "\<bar>y - x\<bar> \<le> \<bar>x\<bar> / 2 ^ 53"
      using to_double_close [of x] xpos by auto
    from y(2) xpos err have "\<bar>y - x\<bar> < 1 / real_of_int c" by simp
    with xlo xhi have "real_of_int k \<le> y" "y < real_of_int k + 1" by linarith+
    then have "\<lfloor>y\<rfloor> = k" by linarith
    with y(1) show ?thesis by blast
  qed
  then show ?thesis by (auto simp add: Math_floor_def ddiv_def x_def k_def)
qed

lemma remainder_integer:
  assumes "0 \<le> s" and "0 < c"
  shows "drem (Finite (real_of_int s)) (real_of_int c) = Finite (real_of_int (s mod c))"
proof -
  have "\<lfloor>real_of_int s / real_of_int c\<rfloor> = s div c" by (rule floor_divide_of_int_eq)
  moreover have "real_of_int s - real_of_int c * real_of_int (s div c) = real_of_int (s mod c)"
  proof -
    have "s - c * (s div c) = s mod c" by (rule minus_mult_div_eq_mod)
    then have "real_of_int (s - c * (s div c)) = real_of_int (s mod c)" by simp
    then show ?thesis by simp
  qed
  ultimately show ?thesis using assms(1) by (simp add: drem_def)
qed

lemma shortest_digits_first: "digit_candidates x 1 = c # cs \<Longrightarrow> shortest_digits x = c"
  by (simp add: shortest_digits_def upto_rec1 [of 1 17])

section \<open>The elapsed time as a clock\<close>

lemma read_clock_fields:
  assumes "m < 60" and "x < 60"
  shows "read_clock (pad 2 hh @ '':'' @ pad 2 m @ '':'' @ pad 2 x) = Some (hh, m, x)"
proof -
  have "split_on CHR '':'' (pad 2 hh @ '':'' @ pad 2 m @ '':'' @ pad 2 x)
      = [pad 2 hh, pad 2 m, pad 2 x]"
    using split_on_sep [OF colon_notin_pad, of 2 hh] split_on_sep [OF colon_notin_pad, of 2 m]
      split_on_no_sep [OF colon_notin_pad, of 2 x] by simp
  moreover from assms have "length (pad 2 m) = 2" and "length (pad 2 x) = 2"
    by (simp_all add: length_pad)
  ultimately show ?thesis using assms
    by (simp add: read_clock_def read_nat_pad length_pad_ge)
qed

lemma formatTime_safe:
  assumes "0 \<le> seconds" and "seconds < 2 ^ 53"
  shows "formatTime seconds =
    pad 2 (nat (seconds div 3600)) @ '':'' @ pad 2 (nat (seconds mod 3600 div 60)) @ '':'' @
    pad 2 (nat (seconds mod 60))"
proof -
  from assms have "\<bar>seconds\<bar> < 2 ^ 53" by simp
  then have d: "to_double (real_of_int seconds) = Finite (real_of_int seconds)"
    by (rule to_double_int)
  have hours: "Math_floor (ddiv (Finite (real_of_int seconds)) 3600)
      = Finite (real_of_int (seconds div 3600))"
    using floor_quotient [OF assms, of 3600] by simp
  have r: "drem (Finite (real_of_int seconds)) 3600 = Finite (real_of_int (seconds mod 3600))"
    using remainder_integer [OF assms(1), of 3600] by simp
  have m0: "0 \<le> seconds mod 3600" and m1: "seconds mod 3600 < 2 ^ 53"
  proof -
    show "0 \<le> seconds mod 3600" by simp
    have "seconds mod 3600 < 3600" by simp
    then show "seconds mod 3600 < 2 ^ 53" by simp
  qed
  have minutes: "Math_floor (ddiv (Finite (real_of_int (seconds mod 3600))) 60)
      = Finite (real_of_int (seconds mod 3600 div 60))"
    using floor_quotient [OF m0 m1, of 60] by simp
  have remaining: "drem (Finite (real_of_int seconds)) 60 = Finite (real_of_int (seconds mod 60))"
    using remainder_integer [OF assms(1), of 60] by simp
  have h: "Number_toString (Finite (real_of_int (seconds div 3600))) = toString_nat (nat (seconds div 3600))"
  proof (rule toString_integer)
    show "0 \<le> seconds div 3600" using assms(1) by simp
    have "seconds div 3600 \<le> seconds div 1" using assms(1) by (rule zdiv_mono2) simp_all
    with assms(2) show "seconds div 3600 < 2 ^ 53" by simp
  qed
  have m: "Number_toString (Finite (real_of_int (seconds mod 3600 div 60)))
      = toString_nat (nat (seconds mod 3600 div 60))"
  proof (rule toString_integer)
    show "0 \<le> seconds mod 3600 div 60" by simp
    have "seconds mod 3600 div 60 \<le> seconds mod 3600 div 1" using m0 by (rule zdiv_mono2) simp_all
    with m1 show "seconds mod 3600 div 60 < 2 ^ 53" by simp
  qed
  have x: "Number_toString (Finite (real_of_int (seconds mod 60))) = toString_nat (nat (seconds mod 60))"
  proof (rule toString_integer)
    show "0 \<le> seconds mod 60" by simp
    have "seconds mod 60 < 60" by simp
    then show "seconds mod 60 < 2 ^ 53" by simp
  qed
  show ?thesis
    by (simp only: formatTime_def Let_def d hours r minutes remaining h m x pad_def)
qed

text \<open>
  C8.  For a number of seconds that is a non-negative integer below \<open>2\<^sup>5\<^sup>3\<close>,
  \<open>formatTime\<close> returns three fields of decimal digits separated by colons: the
  whole hours in two digits or more, never reduced modulo 24, then the minutes and the
  seconds of the remainder in exactly two digits each, both below 60; read back, the fields
  add up to the seconds given.  (The quotient \<open>seconds / 3600\<close> is rounded to a
  double before \<open>Math.floor\<close>; below \<open>2\<^sup>5\<^sup>3\<close> the rounding never reaches
  the next integer.)
\<close>

theorem formatTime_clock:
  assumes "0 \<le> seconds" and "seconds < 2 ^ 53"
  shows "read_clock (formatTime seconds)
           = Some (nat (seconds div 3600), nat (seconds mod 3600 div 60), nat (seconds mod 60))
       \<and> 3600 * (seconds div 3600) + 60 * (seconds mod 3600 div 60) + seconds mod 60 = seconds"
proof -
  have "nat (seconds mod 3600 div 60) < 60" by simp
  moreover have "nat (seconds mod 60) < 60" by simp
  ultimately have "read_clock (formatTime seconds)
           = Some (nat (seconds div 3600), nat (seconds mod 3600 div 60), nat (seconds mod 60))"
    by (simp only: formatTime_safe [OF assms] read_clock_fields)
  moreover have "3600 * (seconds div 3600) + 60 * (seconds mod 3600 div 60) + seconds mod 60 = seconds"
  proof -
    have "seconds mod 3600 mod 60 = seconds mod 60"
      by (rule mod_mod_cancel) simp
    then have "60 * (seconds mod 3600 div 60) + seconds mod 60 = seconds mod 3600"
      using mult_div_mod_eq [of 60 "seconds mod 3600"] by simp
    moreover have "3600 * (seconds div 3600) + seconds mod 3600 = seconds"
      by (rule mult_div_mod_eq)
    ultimately show ?thesis by linarith
  qed
  ultimately show ?thesis by blast
qed


lemma pad2_digits: "v < 100 \<Longrightarrow> pad 2 v = [digit_char (v div 10), digit_char (v mod 10)]"
proof (cases "v < 10")
  case True
  then show ?thesis by (simp add: pad_def padStart_def toString_nat.simps [of v] digit_char_def)
next
  case False
  assume "v < 100"
  then have "v div 10 < 10" by simp
  then have "toString_nat (v div 10) = [digit_char (v div 10)]"
    by (simp add: toString_nat.simps [of "v div 10"])
  with False show ?thesis by (simp add: pad_def padStart_def toString_nat.simps [of v])
qed

lemma pad_small:
  "pad 2 25 = ''25''" "pad 2 (Suc 0) = ''01''" "pad 2 0 = ''00''" "pad 2 59 = ''59''"
  "pad 2 37 = ''37''" "pad 2 20 = ''20''"
  by (simp_all add: pad2_digits digit_char_def)

theorem formatTime_clock_witness:
  "formatTime 90061 = ''25:01:01'' \<and> read_clock (formatTime 90061) = Some (25, 1, 1)
   \<and> formatTime 59 = ''00:00:59''"
proof -
  have a: "formatTime 90061 = ''25:01:01''"
    by (simp add: formatTime_safe pad_small)
  have b: "formatTime 59 = ''00:00:59''"
    by (simp add: formatTime_safe pad_small)
  have "(0::int) \<le> 90061" "(90061::int) < 2 ^ 53" by simp_all
  from formatTime_clock [OF this] have "read_clock (formatTime 90061) = Some (25, 1, 1)"
    by simp
  with a b show ?thesis by simp
qed

text \<open>
  From \<open>10\<^sup>2\<^sup>1\<close> hours the hours are written in exponential notation.  The number
  of seconds below is a double, so it can be the \<open>totalWorkedToday\<close> of a stored record.
\<close>

lemma double_1e21: "to_double 1000000000000000000000 = Finite 1000000000000000000000"
proof (rule to_double_exact [where e = 69 and m = 7629394531250000])
  show "pow2 69 \<le> \<bar>1000000000000000000000\<bar>" by (simp add: pow2_def)
  show "\<bar>1000000000000000000000\<bar> < pow2 (69 + 1)" by (simp add: pow2_def)
  show "1000000000000000000000 = pow2 (max (69 - 52) (- 1074)) * real_of_int 7629394531250000"
    by (simp add: pow2_def)
  show "\<bar>1000000000000000000000 :: real\<bar> < 2 ^ 1024" by simp
qed

lemma double_2e21: "to_double 2000000000000000000000 = Finite 2000000000000000000000"
proof (rule to_double_exact [where e = 70 and m = 7629394531250000])
  show "pow2 70 \<le> \<bar>2000000000000000000000\<bar>" by (simp add: pow2_def)
  show "\<bar>2000000000000000000000\<bar> < pow2 (70 + 1)" by (simp add: pow2_def)
  show "2000000000000000000000 = pow2 (max (70 - 52) (- 1074)) * real_of_int 7629394531250000"
    by (simp add: pow2_def)
  show "\<bar>2000000000000000000000 :: real\<bar> < 2 ^ 1024" by simp
qed

lemma decimal_1e21: "length (decimal 1000000000000000000000) = 22"
  by (simp add: decimal.simps)

lemma toString_1e21: "Number_toString (Finite 1000000000000000000000) = ''1e+21''"
proof -
  have n: "decade 1000000000000000000000 = 22"
    by (simp add: decade_def decimal_1e21)
  have "digit_candidates 1000000000000000000000 1 = [(22, 1, 1)]"
    by (simp add: digit_candidates_def Let_def n pow10_def double_1e21 double_2e21)
  then have "shortest_digits 1000000000000000000000 = (22, 1, 1)"
    by (rule shortest_digits_first)
  moreover have "decimal 1 = ''1''" "decimal 21 = ''21''"
    by (simp_all add: decimal.simps digit_char_def)
  ultimately show ?thesis
    by (simp add: Number_toString_def positive_toString_def)
qed

lemma double_seconds:
  "to_double 3599999999999999832227840 = Finite 3599999999999999832227840"
proof (rule to_double_exact [where e = 81 and m = 6705522537231445])
  show "pow2 81 \<le> \<bar>3599999999999999832227840\<bar>" by (simp add: pow2_def)
  show "\<bar>3599999999999999832227840\<bar> < pow2 (81 + 1)" by (simp add: pow2_def)
  show "3599999999999999832227840 = pow2 (max (81 - 52) (- 1074)) * real_of_int 6705522537231445"
    by (simp add: pow2_def)
  show "\<bar>3599999999999999832227840 :: real\<bar> < 2 ^ 1024" by simp
qed

lemma double_hours:
  "to_double (3599999999999999832227840 / 3600) = Finite 1000000000000000000000"
proof -
  have "to_double (3599999999999999832227840 / 3600)
      = Finite (pow2 (max (69 - 52) (- 1074)) * real_of_int 7629394531250000)"
  proof (rule to_double_rounds [where e = 69])
    show "pow2 69 \<le> \<bar>3599999999999999832227840 / 3600\<bar>" by (simp add: pow2_def)
    show "\<bar>3599999999999999832227840 / 3600\<bar> < pow2 (69 + 1)" by (simp add: pow2_def)
    show "pow2 (max (69 - 52) (- 1074)) = pow2 (max (69 - 52) (- 1074))" by (rule refl)
    show "round_even (3599999999999999832227840 / 3600 / pow2 (max (69 - 52) (- 1074)))
        = 7629394531250000"
      by (rule round_even_unique) (simp add: pow2_def)
    show "\<bar>pow2 (max (69 - 52) (- 1074)) * real_of_int 7629394531250000\<bar> < 2 ^ 1024"
      by (simp add: pow2_def)
  qed
  then show ?thesis by (simp add: pow2_def)
qed

theorem formatTime_exponent_counterexample:
  "(0::int) \<le> 3599999999999999832227840
   \<and> formatTime 3599999999999999832227840 = ''1e+21:37:20''
   \<and> read_clock (formatTime 3599999999999999832227840) = None"
proof -
  have "ddiv (Finite 3599999999999999832227840) 3600 = Finite 1000000000000000000000"
    by (simp only: ddiv_def number.case double_hours)
  then have hours: "Math_floor (ddiv (Finite 3599999999999999832227840) 3600)
      = Finite 1000000000000000000000"
    by (simp add: Math_floor_def)
  have r: "drem (Finite 3599999999999999832227840) 3600 = Finite 2240"
    by (simp add: drem_def)
  have minutes: "Math_floor (ddiv (Finite 2240) 60) = Finite 37"
    using floor_quotient [of 2240 60] by simp
  have remaining: "drem (Finite 3599999999999999832227840) 60 = Finite 20"
    by (simp add: drem_def)
  have m: "Number_toString (Finite 37) = toString_nat 37"
    using toString_integer [of 37] by simp
  have x: "Number_toString (Finite 20) = toString_nat 20"
    using toString_integer [of 20] by simp
  have "formatTime 3599999999999999832227840
      = padStart 2 CHR ''0'' ''1e+21'' @ '':'' @ pad 2 37 @ '':'' @ pad 2 20"
    unfolding formatTime_def Let_def
    by (simp only: of_int_numeral double_seconds hours r minutes remaining m x toString_1e21
        pad_def)
  then have f: "formatTime 3599999999999999832227840 = ''1e+21:37:20''"
    by (simp add: padStart_def pad_small)
  have "read_clock ''1e+21:37:20'' = None"
    by (simp add: read_clock_def read_nat_def digit_val_def)
  with f show ?thesis by simp
qed

section \<open>Earnings\<close>











lemma shrink_pos: "0 < (1 - 1 / 2 ^ 53 :: real) ^ k"
  by simp

lemma grow_ge_one: "1 \<le> (1 + 1 / 2 ^ 53 :: real) ^ k"
  by (rule one_le_power) simp

lemma shrink_le_one: "(1 - 1 / 2 ^ 53 :: real) ^ k \<le> 1"
  by (rule power_le_one) simp_all
























section \<open>The calendar and the string form\<close>

lemma year_down_le: "DayFromYear (year_down d y) \<le> d"
proof (induction d y rule: year_down.induct)
  case (1 d y)
  then show ?case by (subst year_down.simps) simp
qed

lemma year_up_bounds:
  "DayFromYear y \<le> d \<Longrightarrow> DayFromYear (year_up d y) \<le> d \<and> d < DayFromYear (year_up d y + 1)"
proof (induction d y rule: year_up.induct)
  case (1 d y)
  show ?case
  proof (cases "DayFromYear (y + 1) \<le> d")
    case True
    with 1 show ?thesis by (subst (1 2) year_up.simps) simp
  next
    case False
    with 1 show ?thesis by (subst (1 2) year_up.simps) simp
  qed
qed

lemma YearFromDay_bounds:
  "DayFromYear (YearFromDay d) \<le> d \<and> d < DayFromYear (YearFromDay d + 1)"
  unfolding YearFromDay_def by (rule year_up_bounds) (rule year_down_le)

lemma DayFromYear_mono: "y \<le> z \<Longrightarrow> DayFromYear y \<le> DayFromYear z"
proof (induction z rule: int_ge_induct)
  case base
  show ?case by simp
next
  case (step i)
  then show ?case using DayFromYear_less [of i] by simp
qed

lemma YearFromDay_unique:
  assumes "DayFromYear y \<le> d" and "d < DayFromYear (y + 1)"
  shows "YearFromDay d = y"
proof (rule ccontr)
  assume ne: "YearFromDay d \<noteq> y"
  note b = YearFromDay_bounds [of d]
  show False
  proof (cases "YearFromDay d < y")
    case True
    then have "DayFromYear (YearFromDay d + 1) \<le> DayFromYear y"
      by (intro DayFromYear_mono) simp
    with b assms show False by simp
  next
    case False
    with ne have "DayFromYear (y + 1) \<le> DayFromYear (YearFromDay d)"
      by (intro DayFromYear_mono) simp
    with b assms show False by simp
  qed
qed

lemma time_within_day:
  "MakeTime (HourFromTime t) (MinFromTime t) (SecFromTime t) (msFromTime t) = t mod msPerDay"
proof -
  have a: "t mod (1000 * 60) = 1000 * (t div 1000 mod 60) + t mod 1000"
    by (rule zmod_zmult2_eq) simp
  have b: "t mod (60000 * 60) = 60000 * (t div 60000 mod 60) + t mod 60000"
    by (rule zmod_zmult2_eq) simp
  have c: "t mod (3600000 * 24) = 3600000 * (t div 3600000 mod 24) + t mod 3600000"
    by (rule zmod_zmult2_eq) simp
  from a b c show ?thesis
    by (simp add: MakeTime_def HourFromTime_def MinFromTime_def SecFromTime_def msFromTime_def
        msPerDay_def msPerHour_def msPerMinute_def msPerSecond_def)
qed

lemma DayWithinYear_bounds:
  "0 \<le> DayWithinYear t \<and> DayWithinYear t < 365 + InLeapYear t"
proof -
  note b = YearFromDay_bounds [of "Day t"]
  have "DayFromYear (YearFromDay (Day t) + 1) = DayFromYear (YearFromDay (Day t)) + 365 + InLeapYear t"
    using DaysInYear_bounds [of "YearFromDay (Day t)"]
    by (auto simp add: DayFromYear_step InLeapYear_def YearFromTime_def DaysInYear_def)
  with b show ?thesis by (simp add: DayWithinYear_def YearFromTime_def)
qed

lemma InLeapYear_cases: "InLeapYear t = 0 \<or> InLeapYear t = 1"
  by (simp add: InLeapYear_def)

lemma MonthFromTime_range: "0 \<le> MonthFromTime t \<and> MonthFromTime t \<le> 11"
  by (simp add: MonthFromTime_def Let_def)

lemma month_bounds:
  "month_start (InLeapYear t) (MonthFromTime t) \<le> DayWithinYear t
   \<and> DayWithinYear t < month_start (InLeapYear t) (MonthFromTime t + 1)"
  using DayWithinYear_bounds [of t] InLeapYear_cases [of t]
  by (auto simp add: MonthFromTime_def month_start_def Let_def)

lemma DateFromTime_bounds:
  "1 \<le> DateFromTime t \<and> DateFromTime t \<le> DaysInMonth (YearFromTime t) (MonthFromTime t + 1)"
  using month_bounds [of t]
  by (auto simp add: DateFromTime_def DaysInMonth_def InLeapYear_def YearFromTime_def)

lemma DateFromTime_le_31: "DateFromTime t \<le> 31"
  using DayWithinYear_bounds [of t] InLeapYear_cases [of t]
  by (auto simp add: DateFromTime_def MonthFromTime_def month_start_def Let_def)

lemma MakeDay_fields:
  "MakeDay (YearFromTime t) (MonthFromTime t) (DateFromTime t) = Day t"
proof -
  from MonthFromTime_range [of t]
  have "MonthFromTime t div 12 = 0" and "MonthFromTime t mod 12 = MonthFromTime t"
    by simp_all
  then show ?thesis
    by (simp add: MakeDay_def DateFromTime_def InLeapYear_def DayWithinYear_def)
qed

lemma MakeDate_fields:
  "MakeDate (MakeDay (YearFromTime t) (MonthFromTime t) (DateFromTime t))
     (MakeTime (HourFromTime t) (MinFromTime t) (SecFromTime t) (msFromTime t)) = t"
  by (simp add: MakeDay_fields time_within_day MakeDate_def Day_def)

lemma digits_n_pad:
  "v < 10 ^ n \<Longrightarrow> 0 < n \<Longrightarrow> digits_n n (pad n v @ rest) = Some (v, rest)"
  by (simp add: digits_n_def length_pad read_digits_pad)

lemma expect_cons: "expect c (c # rest) = Some rest"
  by (simp add: expect_def)

lemma parse_year_pad4:
  assumes "v < 10 ^ 4"
  shows "parse_year (pad 4 v @ rest) = Some (int v, rest)"
proof -
  obtain c cs where p: "pad 4 v = c # cs" using pad_nonempty [of 4 v] by (cases "pad 4 v") auto
  with pad_digits [of 4 v] have "c \<in> set ''0123456789''" by auto
  then have c: "c \<noteq> CHR ''+''" "c \<noteq> CHR ''-''" by auto
  have "digits_n 4 (c # cs @ rest) = Some (v, rest)"
    using digits_n_pad [of v 4 rest] assms p by simp
  with c show ?thesis by (simp add: parse_year_def p)
qed

lemma parse_year_string:
  assumes "\<bar>year\<bar> < 10 ^ 6"
  shows "parse_year ((if 0 \<le> year \<and> year \<le> 9999 then pad 4 (nat year)
      else (if year < 0 then ''-'' else ''+'') @ pad 6 (nat \<bar>year\<bar>)) @ rest) = Some (year, rest)"
proof -
  consider "0 \<le> year \<and> year \<le> 9999" | "year < 0" | "9999 < year" by linarith
  then show ?thesis
  proof cases
    case 1
    then have "nat year < 10 ^ 4" by (simp add: nat_less_iff)
    from parse_year_pad4 [OF this] 1 show ?thesis by simp
  next
    case 2
    with assms have "nat \<bar>year\<bar> < 10 ^ 6" by (simp add: nat_less_iff)
    from digits_n_pad [OF this] 2 show ?thesis by (simp add: parse_year_def)
  next
    case 3
    with assms have "nat \<bar>year\<bar> < 10 ^ 6" by (simp add: nat_less_iff)
    from digits_n_pad [OF this] 3 show ?thesis by (simp add: parse_year_def)
  qed
qed

lemma parse_iso_fields:
  assumes "\<bar>year\<bar> < 10 ^ 6" and "1 \<le> mo" and "mo \<le> 12" and "1 \<le> dd"
    and "int dd \<le> DaysInMonth year (int mo)" and "dd < 100"
    and "hh < 24" and "mi < 60" and "ss < 60" and "ms < 1000"
  shows "parse_iso (iso_fields year mo dd hh mi ss ms) =
     Some (MakeDate (MakeDay year (int mo - 1) (int dd)) (MakeTime (int hh) (int mi) (int ss) (int ms)))"
proof -
  have d2: "digits_n 2 (pad 2 v @ rest) = Some (v, rest)" if "v < 100" for v rest
    using that by (intro digits_n_pad) simp_all
  have d3: "digits_n 3 (pad 3 v @ rest) = Some (v, rest)" if "v < 1000" for v rest
    using that by (intro digits_n_pad) simp_all
  from assms have small: "mo < 100" "hh < 100" "mi < 100" "ss < 100" by simp_all
  show ?thesis
    unfolding parse_iso_def iso_fields_def
    using assms(2-5,7-9)
    by (simp add: parse_year_string [OF assms(1)] expect_cons d2 d3 small assms(6,10))
qed

lemma Day_bounds:
  assumes "valid_time t"
  shows "- (10 ^ 8) \<le> Day t \<and> Day t \<le> 10 ^ 8"
proof -
  from assms have t: "- 8640000000000000 \<le> t" "t \<le> 8640000000000000"
    by (simp_all add: valid_time_def)
  have "(- 8640000000000000) div 86400000 \<le> t div (86400000::int)"
    using t(1) by (intro zdiv_mono1) simp_all
  moreover have "t div (86400000::int) \<le> 8640000000000000 div 86400000"
    using t(2) by (intro zdiv_mono1) simp_all
  ultimately show ?thesis by (simp add: Day_def msPerDay_def)
qed

lemma YearFromTime_bounds:
  assumes "valid_time t"
  shows "\<bar>YearFromTime t\<bar> < 10 ^ 6"
proof -
  note d = Day_bounds [OF assms]
  note b = YearFromDay_bounds [of "Day t"]
  have hi: "YearFromTime t < 10 ^ 6"
  proof (rule ccontr)
    assume "\<not> YearFromTime t < 10 ^ 6"
    then have "DayFromYear (10 ^ 6) \<le> DayFromYear (YearFromDay (Day t))"
      by (intro DayFromYear_mono) (simp add: YearFromTime_def)
    moreover have "(10::int) ^ 8 < DayFromYear (10 ^ 6)" by (simp add: DayFromYear_def)
    ultimately show False using b d by simp
  qed
  have lo: "- (10 ^ 6) < YearFromTime t"
  proof (rule ccontr)
    assume "\<not> - (10 ^ 6) < YearFromTime t"
    then have "DayFromYear (YearFromDay (Day t) + 1) \<le> DayFromYear (- (10 ^ 6) + 1)"
      by (intro DayFromYear_mono) (simp add: YearFromTime_def)
    moreover have "DayFromYear (- (10 ^ 6) + 1) < - ((10::int) ^ 8)" by (simp add: DayFromYear_def)
    ultimately show False using b d by simp
  qed
  from hi lo show ?thesis by simp
qed

lemma time_field_bounds:
  "0 \<le> HourFromTime t \<and> HourFromTime t < 24 \<and> 0 \<le> MinFromTime t \<and> MinFromTime t < 60
   \<and> 0 \<le> SecFromTime t \<and> SecFromTime t < 60 \<and> 0 \<le> msFromTime t \<and> msFromTime t < 1000"
  by (simp add: HourFromTime_def MinFromTime_def SecFromTime_def msFromTime_def msPerSecond_def)

lemma parse_toISOString:
  assumes "valid_time t"
  shows "parse_iso (toISOString t) = Some t"
proof -
  note y = YearFromTime_bounds [OF assms]
  note m = MonthFromTime_range [of t]
  note d = DateFromTime_bounds [of t] DateFromTime_le_31 [of t]
  note f = time_field_bounds [of t]
  have mo: "int (nat (MonthFromTime t + 1)) = MonthFromTime t + 1" using m by simp
  have "parse_iso (toISOString t) =
     Some (MakeDate (MakeDay (YearFromTime t) (int (nat (MonthFromTime t + 1)) - 1)
                       (int (nat (DateFromTime t))))
             (MakeTime (int (nat (HourFromTime t))) (int (nat (MinFromTime t)))
                (int (nat (SecFromTime t))) (int (nat (msFromTime t)))))"
    unfolding toISOString_def
  proof (rule parse_iso_fields [OF y])
    show "1 \<le> nat (MonthFromTime t + 1)" using m by linarith
    show "nat (MonthFromTime t + 1) \<le> 12" using m by linarith
    show "1 \<le> nat (DateFromTime t)" using d by linarith
    show "int (nat (DateFromTime t)) \<le> DaysInMonth (YearFromTime t) (int (nat (MonthFromTime t + 1)))"
      using d by (simp only: mo) simp
    show "nat (DateFromTime t) < 100" using d by linarith
    show "nat (HourFromTime t) < 24" using f by linarith
    show "nat (MinFromTime t) < 60" using f by linarith
    show "nat (SecFromTime t) < 60" using f by linarith
    show "nat (msFromTime t) < 1000" using f by linarith
  qed
  also have "\<dots> = Some t"
  proof -
    have "int (nat (DateFromTime t)) = DateFromTime t" using d by simp
    moreover have "int (nat (HourFromTime t)) = HourFromTime t" using f by simp
    moreover have "int (nat (MinFromTime t)) = MinFromTime t" using f by simp
    moreover have "int (nat (SecFromTime t)) = SecFromTime t" using f by simp
    moreover have "int (nat (msFromTime t)) = msFromTime t" using f by simp
    ultimately show ?thesis by (simp only: mo add_diff_cancel MakeDate_fields)
  qed
  finally show ?thesis .
qed

lemma Date_parse_toISOString: "valid_time t \<Longrightarrow> Date_parse h (toISOString t) = Some t"
  by (simp add: Date_parse_def parse_toISOString TimeClip_def)

section \<open>Saving and loading\<close>

lemma toISOString_nonempty: "toISOString t \<noteq> []"
  by (simp add: toISOString_def iso_fields_def)

lemma revive_toISOString:
  "(case v of None \<Rightarrow> True | Some t \<Rightarrow> valid_time t) \<Longrightarrow>
   revive h (map_option toISOString v) = Inr (map_option toISOString v)"
  by (cases v) (simp_all add: revive_def toISOString_nonempty Date_parse_toISOString)

lemma stored_date_toISOString:
  "(case v of None \<Rightarrow> True | Some t \<Rightarrow> valid_time t) \<Longrightarrow>
   stored_date h (map_option toISOString v) None = Inr v"
  by (cases v) (simp_all add: stored_date_def toISOString_nonempty Date_parse_toISOString)

lemma stringify_numbers:
  "list_all is_Num (StoredData.weeklyHours d) \<Longrightarrow> JSON_stringify d = JSON_text d"
proof -
  assume "list_all is_Num (StoredData.weeklyHours d)"
  then have "map (\<lambda>c. if is_Num c then c else Null) (StoredData.weeklyHours d) = StoredData.weeklyHours d"
    by (induction "StoredData.weeklyHours d") (auto simp add: list_all_iff map_idI)
  then show ?thesis by (simp add: JSON_stringify_def)
qed

lemma load_saved:
  assumes "valid_dates s" and "list_all is_Num (weeklyHours s)"
  shows "loadStoredData h True (saveToStorage (dataToStore s)) = Inr (dataToStore s)"
proof -
  have "JSON_stringify (dataToStore s) = JSON_text (dataToStore s)"
    using assms(2) by (intro stringify_numbers) (simp add: dataToStore_def)
  moreover have "revive h (StoredData.clockInTime (dataToStore s)) = Inr (StoredData.clockInTime (dataToStore s))"
    using assms(1) by (simp add: dataToStore_def valid_dates_def revive_toISOString)
  moreover have "revive h (StoredData.clockOutTime (dataToStore s)) = Inr (StoredData.clockOutTime (dataToStore s))"
    using assms(1) by (simp add: dataToStore_def valid_dates_def revive_toISOString)
  ultimately show ?thesis
    by (simp add: loadStoredData_def saveToStorage_def JSON_parse_def)
qed

lemma load_effect_saved:
  assumes "valid_dates s"
  shows "load_effect h (dataToStore s) (initial now) = Inr (s\<lparr>currentTime := now\<rparr>)"
proof -
  have "stored_date h (StoredData.clockInTime (dataToStore s)) None = Inr (clockInTime s)"
    using assms by (simp add: dataToStore_def valid_dates_def stored_date_toISOString)
  moreover have "stored_date h (StoredData.clockOutTime (dataToStore s)) None = Inr (clockOutTime s)"
    using assms by (simp add: dataToStore_def valid_dates_def stored_date_toISOString)
  ultimately show ?thesis
    by (simp add: load_effect_def initial_def dataToStore_def)
qed

lemma mount_saved:
  assumes "valid_dates s" and "list_all is_Num (weeklyHours s)" and "renders s"
  shows "mount h now (saveToStorage (dataToStore s)) = Inr (in_sync (s\<lparr>currentTime := now\<rparr>))"
proof -
  have "renders (s\<lparr>currentTime := now\<rparr>)" using assms(3) by (simp add: renders_def)
  then show ?thesis
    by (simp add: mount_def load_saved [OF assms(1,2)] load_effect_saved [OF assms(1)] in_sync_def)
qed

text \<open>
  C5.  A state whose dates are valid and whose weekly hours are numbers comes back from the
  storage as it was saved: \<open>loadStoredData\<close> returns the very record that was
  written, the load effect on a freshly mounted component restores every saved field (the
  dates to the millisecond), a page reloaded from that storage shows the same state and
  writes the same record again, a date that is \<open>null\<close> is stored as \<open>null\<close>,
  and a date that is set is stored as its \<open>toISOString\<close> form, which
  \<open>Date.parse\<close> reads back as the same time value.
\<close>

theorem save_load_round_trip:
  assumes "valid_dates s" and "list_all is_Num (weeklyHours s)"
  shows "loadStoredData h True (saveToStorage (dataToStore s)) = Inr (dataToStore s)
       \<and> load_effect h (dataToStore s) (initial now) = Inr (s\<lparr>currentTime := now\<rparr>)
       \<and> (renders s \<longrightarrow>
            mount h now (saveToStorage (dataToStore s)) = Inr (in_sync (s\<lparr>currentTime := now\<rparr>)))
       \<and> storage (in_sync (s\<lparr>currentTime := now\<rparr>)) = saveToStorage (dataToStore s)
       \<and> (clockInTime s = None \<longrightarrow> StoredData.clockInTime (dataToStore s) = None)
       \<and> (clockOutTime s = None \<longrightarrow> StoredData.clockOutTime (dataToStore s) = None)
       \<and> (\<forall>t. clockInTime s = Some t \<longrightarrow>
              StoredData.clockInTime (dataToStore s) = Some (toISOString t)
            \<and> Date_parse h (toISOString t) = Some t)"
proof -
  have "Date_parse h (toISOString t) = Some t" if "clockInTime s = Some t" for t
    using that assms(1) by (simp add: valid_dates_def Date_parse_toISOString)
  then show ?thesis
    using load_saved [OF assms] load_effect_saved [OF assms(1)] mount_saved [OF assms]
    by (simp add: in_sync_def dataToStore_def)
qed

theorem save_load_round_trip_witness:
  "valid_dates monday_morning \<and> list_all is_Num (weeklyHours monday_morning)
   \<and> StoredData.clockInTime (dataToStore monday_morning) = Some ''2024-01-01T09:00:00.000Z''
   \<and> StoredData.clockOutTime (dataToStore monday_morning) = None
   \<and> loadStoredData utc True (saveToStorage (dataToStore monday_morning))
        = Inr (dataToStore monday_morning)
   \<and> load_effect utc (dataToStore monday_morning) (initial 1704128400000)
        = Inr (monday_morning\<lparr>currentTime := 1704128400000\<rparr>)
   \<and> Date_parse utc ''2024-01-01T09:00:00.000Z'' = Some 1704099600000"
proof -
  have v: "valid_dates monday_morning"
    by (simp add: valid_dates_def monday_morning_def valid_time_def)
  have n: "list_all is_Num (weeklyHours monday_morning)"
    by (simp add: monday_morning_def is_Num_def)
  have i: "toISOString 1704099600000 = ''2024-01-01T09:00:00.000Z''" by code_simp
  have c: "clockInTime monday_morning = Some 1704099600000" "clockOutTime monday_morning = None"
    by (simp_all add: monday_morning_def)
  from save_load_round_trip [OF v n, of utc 1704128400000] c i v n
  show ?thesis by (simp add: dataToStore_def)
qed

text \<open>
  C6 (amended).  A stored string that is not empty and that \<open>JSON.parse\<close> rejects
  makes \<open>loadStoredData\<close> throw the SyntaxError, and mounting the page fails with
  it; the defaults are returned when nothing is stored and also when the stored string is
  empty.
\<close>

theorem load_parse_failure:
  assumes "JSON_parse item = Inl e" and "item \<noteq> Empty_string"
  shows "loadStoredData h True (Some item) = Inl SyntaxError
       \<and> mount h now (Some item) = Inl SyntaxError
       \<and> loadStoredData h True None = Inr getInitialData
       \<and> loadStoredData h True (Some Empty_string) = Inr getInitialData"
proof -
  from assms(1) have "e = SyntaxError" by (cases item) (simp_all add: JSON_parse_def)
  with assms show ?thesis by (simp add: loadStoredData_def mount_def)
qed

theorem load_parse_failure_witness:
  "JSON_parse Not_JSON = Inl SyntaxError \<and> Not_JSON \<noteq> Empty_string
   \<and> loadStoredData utc True (Some Not_JSON) = Inl SyntaxError
   \<and> mount utc 1704099600000 (Some Not_JSON) = Inl SyntaxError"
proof -
  have a: "JSON_parse Not_JSON = Inl SyntaxError" by (simp add: JSON_parse_def)
  have b: "Not_JSON \<noteq> Empty_string" by simp
  from load_parse_failure [OF a b] a b show ?thesis by blast
qed

text \<open>
  C6 as stated fails on the empty string: it is stored, \<open>JSON.parse\<close> rejects it,
  and yet \<open>loadStoredData\<close> returns the defaults, because \<open>!stored\<close> holds
  of the empty string as it does of \<open>null\<close>.
\<close>

theorem load_empty_string_counterexample:
  "Some Empty_string \<noteq> None
   \<and> JSON_parse Empty_string = Inl SyntaxError
   \<and> loadStoredData utc True (Some Empty_string) = Inr getInitialData
   \<and> loadStoredData utc True (Some Empty_string) \<noteq> Inl SyntaxError"
  by (simp add: JSON_parse_def loadStoredData_def)

section \<open>The pages that can be seen\<close>

lemma numbers_map_Num: "list_all is_Num ws \<Longrightarrow> \<exists>hs. ws = map Num hs"
proof (induction ws)
  case Nil
  then show ?case by simp
next
  case (Cons c ws)
  then obtain hs where "ws = map Num hs" by auto
  moreover from Cons.prems obtain x where "c = Num x"
    by (cases c) (simp_all add: is_Num_def)
  ultimately have "c # ws = map Num (x # hs)" by simp
  then show ?case by (rule exI)
qed

lemma list_all_map_Num: "list_all is_Num (map Num hs)"
  by (simp add: list_all_iff is_Num_def)

lemma well_formed_renders: "well_formed s \<Longrightarrow> renders s"
  by (simp add: well_formed_def renders_def)

lemma well_formed_initial: "well_formed (initial now)"
  by (simp add: well_formed_def valid_dates_def initial_def is_Num_def)

lemma well_formed_clockIn:
  "well_formed s \<Longrightarrow> valid_time now \<Longrightarrow> well_formed (handleClockIn now s)"
  by (simp add: well_formed_def valid_dates_def handleClockIn_def)

lemma well_formed_clockOut:
  assumes "well_formed s" and "valid_time now"
  shows "well_formed (handleClockOut h now s)"
proof -
  from assms(1) obtain hs where hs: "weeklyHours s = map Num hs" "length hs = 5"
    using numbers_map_Num [of "weeklyHours s"] by (auto simp add: well_formed_def)
  have "\<exists>hs'. weeklyHours (handleClockOut h now s) = map Num hs' \<and> length hs' = 5"
  proof (cases "clockInTime s")
    case None
    with hs show ?thesis by (auto simp add: handleClockOut_def Let_def)
  next
    case (Some cin)
    show ?thesis
    proof (cases "0 \<le> getDay h now - 1 \<and> getDay h now - 1 < 5")
      case True
      then have "nat (getDay h now - 1) < length hs" using hs(2) by linarith
      from array_store_Num [OF this] Some True hs show ?thesis
        by (auto simp add: handleClockOut_def Let_def spread_Num)
    next
      case False
      with Some hs show ?thesis by (auto simp add: handleClockOut_def Let_def)
    qed
  qed
  then obtain hs' where "weeklyHours (handleClockOut h now s) = map Num hs'" "length hs' = 5"
    by blast
  moreover have "valid_dates (handleClockOut h now s)"
    using assms by (auto simp add: well_formed_def valid_dates_def handleClockOut_def Let_def
        split: option.splits)
  ultimately show ?thesis by (simp add: well_formed_def list_all_map_Num)
qed

lemma mount_first: "mount h now None = Inr (in_sync (initial now))"
proof -
  have "load_effect h getInitialData (initial now) = Inr (initial now)"
    by (simp add: load_effect_def stored_date_def getInitialData_def initial_def)
  then show ?thesis
    using well_formed_renders [OF well_formed_initial, of now]
    by (simp add: mount_def loadStoredData_def in_sync_def)
qed

lemma commit_in_sync:
  assumes "renders s'"
  shows "commit (in_sync s) s' = Inr (in_sync s')"
proof -
  have "dataToStore s' = dataToStore s" if "deps s' = deps s"
    using that by (simp add: deps_def dataToStore_def)
  with assms show ?thesis by (auto simp add: commit_def in_sync_def)
qed

lemma step_in_sync:
  assumes "well_formed s" and "event_ok ev"
  shows "\<exists>s'. step h ev (in_sync s) = Inr (in_sync s') \<and> well_formed s'
            \<and> (\<forall>a. clockInTime s = Some a \<longrightarrow> clockInTime s' = Some a)
            \<and> (\<forall>a b. clockInTime s = Some a \<and> clockOutTime s = Some b \<longrightarrow> clockOutTime s' = Some b)"
proof (cases ev)
  case (DisplayTick now)
  let ?s = "s\<lparr>currentTime := now\<rparr>"
  from assms(1) have w: "well_formed ?s" by (simp add: well_formed_def valid_dates_def)
  have "step h ev (in_sync s) = Inr (in_sync ?s)"
    using commit_in_sync [OF well_formed_renders [OF w]] DisplayTick
    by (simp add: step_def in_sync_def)
  with w show ?thesis by (intro exI [of _ ?s]) simp
next
  case WorkedTick
  let ?s = "s\<lparr>totalWorkedToday := totalWorkedToday s + 1\<rparr>"
  from assms(1) have w: "well_formed ?s" by (simp add: well_formed_def valid_dates_def)
  show ?thesis
  proof (cases "atWork s")
    case True
    have "step h ev (in_sync s) = Inr (in_sync ?s)"
      using commit_in_sync [OF well_formed_renders [OF w]] WorkedTick True
      by (simp add: step_def in_sync_def)
    with w show ?thesis by (intro exI [of _ ?s]) simp
  next
    case False
    with WorkedTick have "step h ev (in_sync s) = Inr (in_sync s)"
      by (simp add: step_def in_sync_def)
    with assms(1) show ?thesis by (intro exI [of _ s]) simp
  qed
next
  case (ClickClockIn now)
  show ?thesis
  proof (cases "clockInDisabled h s")
    case True
    with ClickClockIn have "step h ev (in_sync s) = Inr (in_sync s)"
      by (simp add: step_def in_sync_def)
    with assms(1) show ?thesis by (intro exI [of _ s]) simp
  next
    case False
    let ?s = "handleClockIn now s"
    from assms ClickClockIn have w: "well_formed ?s"
      by (simp add: well_formed_clockIn event_ok_def)
    from False have n: "clockInTime s = None" by (simp add: clockInDisabled_def)
    have "step h ev (in_sync s) = Inr (in_sync ?s)"
      using commit_in_sync [OF well_formed_renders [OF w]] ClickClockIn False
      by (simp add: step_def in_sync_def)
    with w n show ?thesis by (intro exI [of _ ?s]) simp
  qed
next
  case (ClickClockOut now)
  show ?thesis
  proof (cases "clockOutDisabled s")
    case True
    with ClickClockOut have "step h ev (in_sync s) = Inr (in_sync s)"
      by (simp add: step_def in_sync_def)
    with assms(1) show ?thesis by (intro exI [of _ s]) simp
  next
    case False
    let ?s = "handleClockOut h now s"
    from assms ClickClockOut have w: "well_formed ?s"
      by (simp add: well_formed_clockOut event_ok_def)
    from False have n: "clockOutTime s = None" by (simp add: clockOutDisabled_def)
    have k: "clockInTime ?s = clockInTime s"
      by (simp add: handleClockOut_def Let_def split: option.splits)
    have "step h ev (in_sync s) = Inr (in_sync ?s)"
      using commit_in_sync [OF well_formed_renders [OF w]] ClickClockOut False
      by (simp add: step_def in_sync_def)
    with w n k show ?thesis by (intro exI [of _ ?s]) simp
  qed
next
  case (EditRate r)
  let ?s = "s\<lparr>hourlyRate := r\<rparr>"
  from assms(1) have w: "well_formed ?s" by (simp add: well_formed_def valid_dates_def)
  have "step h ev (in_sync s) = Inr (in_sync ?s)"
    using commit_in_sync [OF well_formed_renders [OF w]] EditRate
    by (simp add: step_def in_sync_def)
  with w show ?thesis by (intro exI [of _ ?s]) simp
next
  case (Reload now)
  let ?s = "s\<lparr>currentTime := now\<rparr>"
  from assms(1) have w: "well_formed ?s" by (simp add: well_formed_def valid_dates_def)
  from assms(1) have "mount h now (saveToStorage (dataToStore s)) = Inr (in_sync ?s)"
    by (intro mount_saved) (simp_all add: well_formed_def renders_def)
  with Reload have "step h ev (in_sync s) = Inr (in_sync ?s)"
    by (simp add: step_def in_sync_def)
  with w show ?thesis by (intro exI [of _ ?s]) simp
qed

lemma reachable_in_sync: "reachable h p \<Longrightarrow> \<exists>s. p = in_sync s \<and> well_formed s"
proof (induction rule: reachable.induct)
  case (first now p)
  then show ?case using well_formed_initial [of now] by (auto simp add: mount_first)
next
  case (later p ev p')
  then obtain s where s: "p = in_sync s" "well_formed s" by blast
  from step_in_sync [OF s(2) later.hyps(2), of h] later.hyps(3) s(1) show ?case by auto
qed


lemma monday_evening_fields:
  "clockInTime monday_evening = Some 1704099600000"
  "clockOutTime monday_evening = Some 1704128400000"
  "weeklyHours monday_evening = [Num 8, Num 0, Num 0, Num 0, Num 0]"
proof -
  have d: "getDay utc 1704128400000 = 1"
    by (simp add: getDay_def LocalTime_def WeekDay_def Day_def msPerDay_def utc_def)
  have e: "differenceInSeconds 1704128400000 1704099600000 = 28800"
    by (simp add: differenceInSeconds_def)
  show "clockInTime monday_evening = Some 1704099600000"
    by (simp add: monday_evening_def handleClockOut_def handleClockIn_def initial_def Let_def d)
  show "clockOutTime monday_evening = Some 1704128400000"
    by (simp add: monday_evening_def handleClockOut_def handleClockIn_def initial_def Let_def d)
  show "weeklyHours monday_evening = [Num 8, Num 0, Num 0, Num 0, Num 0]"
    by (simp add: monday_evening_def handleClockOut_def handleClockIn_def initial_def Let_def d e
        spread_def array_store_def)
qed

lemma reachable_monday_evening: "reachable utc (in_sync monday_evening)"
proof -
  let ?t = "1704099600000 :: int"
  have v: "valid_time ?t" "valid_time 1704128400000" by (simp_all add: valid_time_def)
  have r0: "reachable utc (in_sync (initial ?t))"
    using v(1) mount_first [of utc ?t] by (rule reachable.first)
  have en: "\<not> clockInDisabled utc (initial ?t)"
    by (simp add: clockInDisabled_def isWorkingHours_def isWeekday_def getHours_def getDay_def
        LocalTime_def WeekDay_def HourFromTime_def Day_def msPerDay_def msPerHour_def utc_def
        initial_def)
  have w1: "well_formed (handleClockIn ?t (initial ?t))"
    using well_formed_initial v(1) by (rule well_formed_clockIn)
  have st1: "step utc (ClickClockIn ?t) (in_sync (initial ?t)) = Inr (in_sync (handleClockIn ?t (initial ?t)))"
    using commit_in_sync [OF well_formed_renders [OF w1], of "initial ?t"] en
    by (simp add: step_def in_sync_def Let_def)
  have ev1: "event_ok (ClickClockIn ?t)" by (simp add: event_ok_def v)
  have r1: "reachable utc (in_sync (handleClockIn ?t (initial ?t)))"
    using r0 ev1 st1 by (rule reachable.later)
  have w2: "well_formed monday_evening"
    unfolding monday_evening_def using w1 v(2) by (rule well_formed_clockOut)
  have "\<not> clockOutDisabled (handleClockIn ?t (initial ?t))"
    by (simp add: clockOutDisabled_def handleClockIn_def)
  then have st2: "step utc (ClickClockOut 1704128400000) (in_sync (handleClockIn ?t (initial ?t)))
      = Inr (in_sync monday_evening)"
    using commit_in_sync [OF well_formed_renders [OF w2], of "handleClockIn ?t (initial ?t)"]
    by (simp add: step_def in_sync_def monday_evening_def Let_def)
  have ev2: "event_ok (ClickClockOut 1704128400000)" by (simp add: event_ok_def v)
  show ?thesis using r1 ev2 st2 by (rule reachable.later)
qed

text \<open>
  C9.  On every page that can be seen, the weekly hours are exactly five entries, all of
  them numbers, and the storage holds the record of the state shown: the page first opened
  shows five zeros, and every event (a tick of either timer, a click on either button, an
  edit of the rate, a reload from the storage) succeeds and leaves five entries.  Loading
  takes the weekly hours from the stored record as they are.
\<close>

theorem weeklyHours_five_entries:
  assumes "reachable h p"
  shows "length (weeklyHours (shown p)) = 5 \<and> list_all is_Num (weeklyHours (shown p))
       \<and> storage p = saveToStorage (dataToStore (shown p))
       \<and> (\<forall>ev. event_ok ev \<longrightarrow>
             (\<exists>p'. step h ev p = Inr p' \<and> length (weeklyHours (shown p')) = 5))
       \<and> (\<forall>d s s'. load_effect h d s = Inr s' \<longrightarrow> weeklyHours s' = StoredData.weeklyHours d)
       \<and> (\<forall>item d0 d. JSON_parse item = Inr d0 \<longrightarrow> loadStoredData h True (Some item) = Inr d \<longrightarrow>
             StoredData.weeklyHours d = StoredData.weeklyHours d0)"
proof -
  have le: "weeklyHours s' = StoredData.weeklyHours d" if "load_effect h d s = Inr s'" for d s s'
    using that by (auto simp add: load_effect_def split: sum.splits)
  have ld: "StoredData.weeklyHours d = StoredData.weeklyHours d0"
    if "JSON_parse item = Inr d0" and "loadStoredData h True (Some item) = Inr d" for item d0 d
    using that by (auto simp add: loadStoredData_def JSON_parse_def split: sum.splits if_splits)
  from reachable_in_sync [OF assms] obtain s where s: "p = in_sync s" "well_formed s" by blast
  have "\<exists>p'. step h ev p = Inr p' \<and> length (weeklyHours (shown p')) = 5" if "event_ok ev" for ev
  proof -
    from step_in_sync [OF s(2) that, of h] obtain s' where
      "step h ev (in_sync s) = Inr (in_sync s')" "well_formed s'" by blast
    then show ?thesis using s(1) by (auto simp add: well_formed_def in_sync_def)
  qed
  with s have "length (weeklyHours (shown p)) = 5 \<and> list_all is_Num (weeklyHours (shown p))
       \<and> storage p = saveToStorage (dataToStore (shown p))
       \<and> (\<forall>ev. event_ok ev \<longrightarrow>
             (\<exists>p'. step h ev p = Inr p' \<and> length (weeklyHours (shown p')) = 5))"
    by (simp add: well_formed_def in_sync_def)
  with le ld show ?thesis by blast
qed

theorem weeklyHours_five_entries_witness:
  "reachable utc (in_sync monday_evening)
   \<and> weeklyHours (shown (in_sync monday_evening)) = [Num 8, Num 0, Num 0, Num 0, Num 0]
   \<and> length (weeklyHours (shown (in_sync monday_evening))) = 5"
  using weeklyHours_five_entries [OF reachable_monday_evening] reachable_monday_evening
  by (simp add: in_sync_def monday_evening_fields)



end
